theory Spec2Isabelle
  imports Main "HOL-Library.AList"
begin

section \<open>Go strings and the library functions the plugin calls\<close>

text \<open>
  A Go string is a sequence of bytes, and so is an Isabelle \<open>string\<close>: \<open>length\<close> is Go's
  \<open>len\<close>. A rune is a Go \<open>int32\<close>; the values that occur here lie between \<open>-1\<close> and
  \<open>0x10FFFF\<close>, so runes are modelled as \<open>int\<close>, and so is the value of a byte.
\<close>

abbreviation byte :: "char \<Rightarrow> int" where
  "byte c \<equiv> of_char c"

definition RuneError :: int where
  "RuneError = 0xFFFD"

text \<open>
  \<open>utf8.DecodeRuneInString\<close>: the rune at the front of the string and its width in bytes.
  An ill-formed sequence gives \<open>(RuneError, 1)\<close>. The masks and shifts of the Go code are
  written arithmetically: \<open>b & 0x1F\<close> is \<open>b mod 32\<close>, \<open>x << 6 | y\<close> is \<open>x * 64 + y\<close> for
  \<open>y < 64\<close>.
\<close>

definition utf8_size :: "int \<Rightarrow> nat" where
  "utf8_size s0 = (if s0 < 0xE0 then 2 else if s0 < 0xF0 then 3 else 4)"

definition accept_lo :: "int \<Rightarrow> int" where
  "accept_lo s0 = (if s0 = 0xE0 then 0xA0 else if s0 = 0xF0 then 0x90 else 0x80)"

definition accept_hi :: "int \<Rightarrow> int" where
  "accept_hi s0 = (if s0 = 0xED then 0x9F else if s0 = 0xF4 then 0x8F else 0xBF)"

fun DecodeRuneInString :: "string \<Rightarrow> int \<times> nat" where
  "DecodeRuneInString [] = (RuneError, 0)"
| "DecodeRuneInString (c0 # s) =
    (let s0 = byte c0 in
     if s0 < 0x80 then (s0, 1)
     else if s0 < 0xC2 \<or> 0xF4 < s0 then (RuneError, 1)
     else if length s + 1 < utf8_size s0 then (RuneError, 1)
     else
       let s1 = byte (s ! 0) in
       if s1 < accept_lo s0 \<or> accept_hi s0 < s1 then (RuneError, 1)
       else if utf8_size s0 \<le> 2 then ((s0 mod 32) * 64 + s1 mod 64, 2)
       else
         let s2 = byte (s ! 1) in
         if s2 < 0x80 \<or> 0xBF < s2 then (RuneError, 1)
         else if utf8_size s0 \<le> 3
           then ((s0 mod 16) * 4096 + (s1 mod 64) * 64 + s2 mod 64, 3)
         else
           let s3 = byte (s ! 2) in
           if s3 < 0x80 \<or> 0xBF < s3 then (RuneError, 1)
           else ((s0 mod 8) * 262144 + (s1 mod 64) * 4096 + (s2 mod 64) * 64 + s3 mod 64, 4))"

text \<open>
  \<open>utf8.AppendRune\<close> (behind \<open>strings.Builder.WriteRune\<close>): the UTF-8 encoding of a rune.
  A negative rune, a surrogate and a rune beyond \<open>0x10FFFF\<close> are written as \<open>RuneError\<close>.
\<close>

definition EncodeRune :: "int \<Rightarrow> string" where
  "EncodeRune r =
    (if 0 \<le> r \<and> r \<le> 0x7F then [char_of r]
     else if 0 \<le> r \<and> r \<le> 0x7FF then [char_of (0xC0 + r div 64), char_of (0x80 + r mod 64)]
     else if r < 0 \<or> 0x10FFFF < r \<or> (0xD800 \<le> r \<and> r \<le> 0xDFFF)
       then [CHR 0xEF, CHR 0xBF, CHR 0xBD]
     else if r \<le> 0xFFFF
       then [char_of (0xE0 + r div 4096), char_of (0x80 + (r div 64) mod 64),
             char_of (0x80 + r mod 64)]
     else [char_of (0xF0 + r div 262144), char_of (0x80 + (r div 4096) mod 64),
           char_of (0x80 + (r div 64) mod 64), char_of (0x80 + r mod 64)])"

text \<open>
  \<open>strings.Map\<close>: the string is read rune by rune as a \<open>for range\<close> loop does, the mapping
  is applied to each rune, a negative result drops the rune and any other result is
  written in UTF-8. The library copies the input up to the first rune that changes and
  returns the input itself when none does; since a well-formed sequence is the encoding of
  the rune it decodes to, that gives the same bytes as encoding every mapped rune. A byte
  that is not part of a well-formed sequence is read as \<open>RuneError\<close> with width 1, and what
  the mapping returns for \<open>RuneError\<close> is written in its place.
\<close>

fun strings_Map :: "(int \<Rightarrow> int) \<Rightarrow> string \<Rightarrow> string" where
  "strings_Map mapping [] = []"
| "strings_Map mapping (c # s) =
    (let (r0, width) = DecodeRuneInString (c # s); r = mapping r0
     in (if 0 \<le> r then EncodeRune r else []) @ strings_Map mapping (drop (width - 1) s))"

text \<open>The runes of a string, as a \<open>for range\<close> loop over it yields them.\<close>

fun runes :: "string \<Rightarrow> int list" where
  "runes [] = []"
| "runes (c # s) =
    (let (r, width) = DecodeRuneInString (c # s) in r # runes (drop (width - 1) s))"

text \<open>
  \<open>strings.ToLower\<close>: a string of ASCII bytes has its letters \<open>A\<close> to \<open>Z\<close> lowered;
  any other string goes through \<open>strings.Map\<close> with \<open>unicode.ToLower\<close>, whose case tables
  are the parameter \<open>lower\<close>.
\<close>

definition ascii_lower :: "char \<Rightarrow> char" where
  "ascii_lower c = (if 0x41 \<le> byte c \<and> byte c \<le> 0x5A then char_of (byte c + 0x20) else c)"

definition strings_ToLower :: "(int \<Rightarrow> int) \<Rightarrow> string \<Rightarrow> string" where
  "strings_ToLower lower s =
    (if list_all (\<lambda>c. byte c < 0x80) s then map ascii_lower s else strings_Map lower s)"

text \<open>\<open>unicode.IsSpace\<close>: the code points with the White_Space property.\<close>

definition unicode_IsSpace :: "int \<Rightarrow> bool" where
  "unicode_IsSpace r =
    ((0x09 \<le> r \<and> r \<le> 0x0D) \<or> r = 0x20 \<or> r = 0x85 \<or> r = 0xA0 \<or> r = 0x1680
     \<or> (0x2000 \<le> r \<and> r \<le> 0x200A) \<or> r = 0x2028 \<or> r = 0x2029 \<or> r = 0x202F
     \<or> r = 0x205F \<or> r = 0x3000)"

definition asciiSpace :: "char \<Rightarrow> bool" where
  "asciiSpace c = ((0x09 \<le> byte c \<and> byte c \<le> 0x0D) \<or> byte c = 0x20)"

text \<open>
  \<open>utf8.DecodeLastRuneInString\<close>: the rune at the end of the string. Its loop steps
  back from the last byte, over at most three bytes, to the nearest byte that can start a
  rune (\<open>lastRuneStart\<close>; one byte further when there is none and the string is longer,
  the start of the string otherwise); the rune decoded from there is accepted only if it
  ends exactly at the end of the string.
\<close>

definition RuneStart :: "int \<Rightarrow> bool" where
  "RuneStart b = (b < 0x80 \<or> 0xBF < b)"

definition lastRuneStart :: "string \<Rightarrow> nat" where
  "lastRuneStart s =
    (let n = length s in
     if 2 \<le> n \<and> RuneStart (byte (s ! (n - 2))) then n - 2
     else if 3 \<le> n \<and> RuneStart (byte (s ! (n - 3))) then n - 3
     else if 4 \<le> n \<and> RuneStart (byte (s ! (n - 4))) then n - 4
     else n - 5)"

definition DecodeLastRuneInString :: "string \<Rightarrow> int \<times> nat" where
  "DecodeLastRuneInString s =
    (let n = length s in
     if n = 0 then (RuneError, 0)
     else if byte (s ! (n - 1)) < 0x80 then (byte (s ! (n - 1)), 1)
     else
       let start = lastRuneStart s;
           (r, size) = DecodeRuneInString (drop start s)
       in if start + size \<noteq> n then (RuneError, 1) else (r, size))"

text \<open>
  \<open>strings.TrimLeftFunc\<close> and \<open>strings.TrimRightFunc\<close> with their index loops
  \<open>indexFunc\<close> and \<open>lastIndexFunc\<close>, and \<open>strings.TrimSpace\<close> with its fast path over
  ASCII bytes, which hands over to the rune-wise functions at the first byte \<open>\<ge> 0x80\<close>.
\<close>

fun TrimLeftFunc :: "(int \<Rightarrow> bool) \<Rightarrow> string \<Rightarrow> string" where
  "TrimLeftFunc f [] = []"
| "TrimLeftFunc f (c # s) =
    (let (r, width) = DecodeRuneInString (c # s)
     in if f r then TrimLeftFunc f (drop (width - 1) s) else c # s)"

function lastIndexFunc :: "(int \<Rightarrow> bool) \<Rightarrow> string \<Rightarrow> int" where
  "lastIndexFunc f s =
    (if s = [] then - 1
     else
       (let (r, size) = DecodeLastRuneInString s in
        if \<not> f r then int (length s - size)
        else lastIndexFunc f (take (length s - size) s)))"
  by pat_completeness auto
termination
proof (relation "measure (\<lambda>(f, s). length s)")
  show "wf (measure (\<lambda>(f, s). length s))"
    by simp
next
  fix f :: "int \<Rightarrow> bool" and s :: string and x :: "int \<times> nat" and r :: int and size :: nat
  assume ne: "s \<noteq> []" and x: "x = DecodeLastRuneInString s" and rs: "(r, size) = x"
  from ne have pos: "0 < length s"
    by simp
  then have "lastRuneStart s < length s"
    by (simp add: lastRuneStart_def Let_def)
  with pos have "0 < snd (DecodeLastRuneInString s)"
    by (simp add: DecodeLastRuneInString_def Let_def split: prod.splits)
  with x rs have "0 < size"
    by (metis snd_conv)
  with ne show "((f, take (length s - size) s), (f, s)) \<in> measure (\<lambda>(f, s). length s)"
    by simp
qed

declare lastIndexFunc.simps [simp del]

definition TrimRightFunc :: "(int \<Rightarrow> bool) \<Rightarrow> string \<Rightarrow> string" where
  "TrimRightFunc f s =
    (let i = lastIndexFunc f s in
     if 0 \<le> i \<and> 0x80 \<le> byte (s ! nat i)
       then take (nat i + snd (DecodeRuneInString (drop (nat i) s))) s
       else take (nat (i + 1)) s)"

definition TrimFunc :: "(int \<Rightarrow> bool) \<Rightarrow> string \<Rightarrow> string" where
  "TrimFunc f s = TrimRightFunc f (TrimLeftFunc f s)"

definition strings_TrimSpace :: "string \<Rightarrow> string" where
  "strings_TrimSpace s =
    (case dropWhile asciiSpace s of
       [] \<Rightarrow> []
     | c # s1 \<Rightarrow>
         if 0x80 \<le> byte c then TrimFunc unicode_IsSpace (c # s1)
         else
           (let t = rev (dropWhile asciiSpace (rev (c # s1))) in
            if 0x80 \<le> byte (last t) then TrimRightFunc unicode_IsSpace t else t))"

text \<open>
  \<open>strings.Split\<close> with a separator of one byte, the only way the plugin calls it:
  the pieces between the occurrences of the separator, so one piece more than there are
  separators, and \<open>[\<close>\<open>''''\<close>\<open>]\<close> for the empty string.
\<close>

fun strings_Split :: "string \<Rightarrow> char \<Rightarrow> string list" where
  "strings_Split [] sep = [[]]"
| "strings_Split (c # s) sep =
    (if c = sep then [] # strings_Split s sep
     else (case strings_Split s sep of
             [] \<Rightarrow> [[c]]
           | p # ps \<Rightarrow> (c # p) # ps))"

section \<open>Errors\<close>

text \<open>One constructor for each error the plugin builds with \<open>fmt.Errorf\<close>.\<close>

datatype error =
    InvalidFormat nat          \<comment> \<open>invalid JWT format: expected 3 segments, got n\<close>
  | InvalidEncoding            \<comment> \<open>invalid JWT encoding\<close>
  | InvalidJSON                \<comment> \<open>invalid JWT JSON\<close>
  | MissingAlg                 \<comment> \<open>invalid JWT header: missing required 'alg' field\<close>
  | DepthExceeded int          \<comment> \<open>claim path depth exceeds maximum (maxDepth)\<close>
  | ClaimNotFound string       \<comment> \<open>claim not found: path\<close>
  | NotAnObject string         \<comment> \<open>invalid claim path: 'part' is not an object\<close>
  | SizeExceeded int           \<comment> \<open>header value exceeds maximum size (maxSize bytes)\<close>
  | MarshalFailed              \<comment> \<open>failed to marshal array or object to JSON\<close>

section \<open>Claim values\<close>

text \<open>
  A claim value is what \<open>json.Unmarshal\<close> stores in an \<open>interface{}\<close>: nil, a bool,
  a float64, a string, a \<open>[]interface{}\<close> or a \<open>map[string]interface{}\<close>. The type of
  64-bit floats is the parameter \<open>'f\<close>. A Go map is an association list read with
  \<open>map_of\<close>; the order of its entries has no meaning.
\<close>

datatype 'f json =
    JNull
  | JBool bool
  | JNumber 'f
  | JString string
  | JArray "'f json list"
  | JObject "(string \<times> 'f json) list"

type_synonym 'f object = "(string \<times> 'f json) list"

section \<open>headers.go\<close>

text \<open>
  \<open>http.Header\<close> is a \<open>map[string][]string\<close> keyed by canonical header names.
  \<open>Get\<close>, \<open>Set\<close> and \<open>Del\<close> canonicalise the name with
  \<open>textproto.CanonicalMIMEHeaderKey\<close>: a name made of token bytes only gets an upper-case
  letter at the start and after each \<open>-\<close> and lower-case letters elsewhere; any other name
  is used as it is.
\<close>

type_synonym Header = "string \<rightharpoonup> string list"

definition validHeaderFieldByte :: "char \<Rightarrow> bool" where
  "validHeaderFieldByte c =
    (let b = byte c in
     (0x30 \<le> b \<and> b \<le> 0x39) \<or> (0x41 \<le> b \<and> b \<le> 0x5A) \<or> (0x61 \<le> b \<and> b \<le> 0x7A)
     \<or> c \<in> set ''!#$%&*+-.^_`|~'' \<or> b = 0x27)"

fun canonical_loop :: "bool \<Rightarrow> string \<Rightarrow> string" where
  "canonical_loop upper [] = []"
| "canonical_loop upper (c # s) =
    (let c' = (if upper \<and> 0x61 \<le> byte c \<and> byte c \<le> 0x7A then char_of (byte c - 0x20)
               else if \<not> upper \<and> 0x41 \<le> byte c \<and> byte c \<le> 0x5A then char_of (byte c + 0x20)
               else c)
     in c' # canonical_loop (c' = CHR ''-'') s)"

definition CanonicalMIMEHeaderKey :: "string \<Rightarrow> string" where
  "CanonicalMIMEHeaderKey s =
    (if list_all validHeaderFieldByte s then canonical_loop True s else s)"

definition Header_Get :: "Header \<Rightarrow> string \<Rightarrow> string" where
  "Header_Get h key =
    (case h (CanonicalMIMEHeaderKey key) of
       None \<Rightarrow> []
     | Some [] \<Rightarrow> []
     | Some (v # _) \<Rightarrow> v)"

definition Header_Set :: "Header \<Rightarrow> string \<Rightarrow> string \<Rightarrow> Header" where
  "Header_Set h key v = h(CanonicalMIMEHeaderKey key \<mapsto> [v])"

definition Header_Del :: "Header \<Rightarrow> string \<Rightarrow> Header" where
  "Header_Del h key = h(CanonicalMIMEHeaderKey key := None)"

definition protectedHeaders :: "string list" where
  "protectedHeaders =
    [''host'', ''x-forwarded-for'', ''x-forwarded-host'', ''x-forwarded-proto'',
     ''x-forwarded-port'', ''x-real-ip'', ''content-length'', ''content-type'',
     ''transfer-encoding'']"

definition IsProtectedHeader :: "(int \<Rightarrow> int) \<Rightarrow> string \<Rightarrow> bool" where
  "IsProtectedHeader lower name = (strings_ToLower lower name \<in> set protectedHeaders)"

definition controlRune :: "int \<Rightarrow> bool" where
  "controlRune r = (r < 0x20 \<or> r = 0x7F)"

definition controlByte :: "char \<Rightarrow> bool" where
  "controlByte c = (byte c < 0x20 \<or> byte c = 0x7F)"

definition SanitizeHeaderValue :: "string \<Rightarrow> int \<Rightarrow> error + string" where
  "SanitizeHeaderValue v maxSize =
    (if int (length v) > maxSize then Inl (SizeExceeded maxSize)
     else Inr (strings_TrimSpace (strings_Map (\<lambda>r. if controlRune r then - 1 else r) v)))"

text \<open>
  \<open>InjectHeader\<close> mutates the header collection of the request in place and returns an
  error or nil: the model returns the collection after the call with the error, if any.
\<close>

definition InjectHeader ::
    "(int \<Rightarrow> int) \<Rightarrow> Header \<Rightarrow> string \<Rightarrow> string \<Rightarrow> bool \<Rightarrow> int \<Rightarrow> Header \<times> error option" where
  "InjectHeader lower h name v override maxSize =
    (if IsProtectedHeader lower name then (h, None)
     else (case SanitizeHeaderValue v maxSize of
             Inl err \<Rightarrow> (h, Some err)
           | Inr sanitized \<Rightarrow>
               if Header_Get h name \<noteq> [] \<and> \<not> override then (h, None)
               else (Header_Set h name sanitized, None)))"

section \<open>jwt.go\<close>

text \<open>
  \<open>base64.RawURLEncoding.DecodeString\<close>: the URL alphabet without padding. The decoder
  skips carriage returns and line feeds, rejects any other byte outside the alphabet
  (the padding character included), turns each group of four characters into three
  bytes, a final group of three into two and of two into one, and rejects a final group
  of one.
\<close>

definition decodeMap :: "char \<Rightarrow> int option" where
  "decodeMap c =
    (let b = byte c in
     if 0x41 \<le> b \<and> b \<le> 0x5A then Some (b - 0x41)
     else if 0x61 \<le> b \<and> b \<le> 0x7A then Some (b - 0x61 + 26)
     else if 0x30 \<le> b \<and> b \<le> 0x39 then Some (b - 0x30 + 52)
     else if b = 0x2D then Some 62
     else if b = 0x5F then Some 63
     else None)"

fun sextets :: "string \<Rightarrow> int list option" where
  "sextets [] = Some []"
| "sextets (c # s) =
    (case decodeMap c of
       Some v \<Rightarrow> map_option (Cons v) (sextets s)
     | None \<Rightarrow> if c = CHR 0x0A \<or> c = CHR 0x0D then sextets s else None)"

fun decodeQuanta :: "int list \<Rightarrow> string option" where
  "decodeQuanta (a # b # c # d # rest) =
    map_option
      (\<lambda>t. char_of (a * 4 + b div 16) # char_of ((b mod 16) * 16 + c div 4)
             # char_of ((c mod 4) * 64 + d) # t)
      (decodeQuanta rest)"
| "decodeQuanta [a, b, c] =
    Some [char_of (a * 4 + b div 16), char_of ((b mod 16) * 16 + c div 4)]"
| "decodeQuanta [a, b] = Some [char_of (a * 4 + b div 16)]"
| "decodeQuanta [a] = None"
| "decodeQuanta [] = Some []"

definition base64_DecodeString :: "string \<Rightarrow> string option" where
  "base64_DecodeString s = (case sextets s of None \<Rightarrow> None | Some vs \<Rightarrow> decodeQuanta vs)"

text \<open>\<open>base64.RawURLEncoding.EncodeToString\<close>, with which a token is built.\<close>

definition encodeChar :: "int \<Rightarrow> char" where
  "encodeChar v =
    (if v < 26 then char_of (0x41 + v)
     else if v < 52 then char_of (0x61 + (v - 26))
     else if v < 62 then char_of (0x30 + (v - 52))
     else if v = 62 then CHR ''-''
     else CHR ''_'')"

fun base64_EncodeToString :: "string \<Rightarrow> string" where
  "base64_EncodeToString (x # y # z # rest) =
    (let a = byte x; b = byte y; c = byte z in
     encodeChar (a div 4) # encodeChar ((a mod 4) * 16 + b div 16)
     # encodeChar ((b mod 16) * 4 + c div 64) # encodeChar (c mod 64)
     # base64_EncodeToString rest)"
| "base64_EncodeToString [x, y] =
    (let a = byte x; b = byte y in
     [encodeChar (a div 4), encodeChar ((a mod 4) * 16 + b div 16), encodeChar ((b mod 16) * 4)])"
| "base64_EncodeToString [x] =
    (let a = byte x in [encodeChar (a div 4), encodeChar ((a mod 4) * 16)])"
| "base64_EncodeToString [] = []"


subsection \<open>\<open>json.Unmarshal\<close> into a \<open>map[string]interface{}\<close>\<close>

text \<open>
  The decoder of \<open>encoding/json\<close>, as far as \<open>ParseJWT\<close> uses it. The input is cut
  into tokens; a machine with the states of the library's scanner and a stack of open
  arrays and objects consumes them. The input must be one JSON value between optional
  white space. Arrays and objects nest at most 10000 deep. A string may not hold a raw
  byte below \<open>0x20\<close>; its escapes are a backslash before a quote, a backslash, a
  slash or one of \<open>b f n r t\<close>, and a backslash before \<open>u\<close> and four
  hexadecimal digits, a surrogate pair giving one rune and a lone surrogate
  \<open>RuneError\<close>; bytes that are not well-formed UTF-8 become \<open>RuneError\<close>. A number
  follows the JSON grammar and is converted by \<open>strconv.ParseFloat\<close>, the parameter
  \<open>parseFloat\<close>, whose range error fails the decoding. A key that occurs again replaces
  the earlier value. At the top level an object gives the map and \<open>null\<close> the nil map,
  which reads like the empty map; any other value is an error.
\<close>

datatype token =
    TLBrace | TRBrace | TLBrack | TRBrack | TColon | TComma
  | TString string | TNumber string | TTrue | TFalse | TNull

definition isDigit :: "char \<Rightarrow> bool" where
  "isDigit c = (0x30 \<le> byte c \<and> byte c \<le> 0x39)"

definition isSpace :: "char \<Rightarrow> bool" where
  "isSpace c = (c = CHR 0x20 \<or> c = CHR 0x09 \<or> c = CHR 0x0D \<or> c = CHR 0x0A)"

definition numberChar :: "char \<Rightarrow> bool" where
  "numberChar c = (isDigit c \<or> c = CHR ''-'' \<or> c = CHR ''+'' \<or> c = CHR ''.''
                   \<or> c = CHR ''e'' \<or> c = CHR ''E'')"

definition validExponent :: "string \<Rightarrow> bool" where
  "validExponent s =
    (case s of
       [] \<Rightarrow> True
     | e # s1 \<Rightarrow>
         (e = CHR ''e'' \<or> e = CHR ''E'')
         \<and> (case s1 of
               [] \<Rightarrow> False
             | g # s2 \<Rightarrow>
                 if g = CHR ''+'' \<or> g = CHR ''-'' then s2 \<noteq> [] \<and> list_all isDigit s2
                 else list_all isDigit s1))"

definition validFraction :: "string \<Rightarrow> bool" where
  "validFraction s =
    (case s of
       [] \<Rightarrow> True
     | p # s1 \<Rightarrow>
         if p = CHR ''.''
         then (case s1 of
                 [] \<Rightarrow> False
               | d # s2 \<Rightarrow> isDigit d \<and> validExponent (dropWhile isDigit s2))
         else validExponent s)"

definition validNumber :: "string \<Rightarrow> bool" where
  "validNumber s =
    (case (if s \<noteq> [] \<and> hd s = CHR ''-'' then tl s else s) of
       [] \<Rightarrow> False
     | d # s1 \<Rightarrow>
         if d = CHR ''0'' then validFraction s1
         else isDigit d \<and> validFraction (dropWhile isDigit s1))"

datatype lexmode = LTop | LStr string | LEsc string | LNum string | LLit string token

fun lex :: "lexmode \<Rightarrow> string \<Rightarrow> token list option" where
  "lex LTop [] = Some []"
| "lex LTop (c # s) =
    (if isSpace c then lex LTop s
     else if c = CHR ''{'' then map_option (Cons TLBrace) (lex LTop s)
     else if c = CHR ''}'' then map_option (Cons TRBrace) (lex LTop s)
     else if c = CHR ''['' then map_option (Cons TLBrack) (lex LTop s)
     else if c = CHR '']'' then map_option (Cons TRBrack) (lex LTop s)
     else if c = CHR '':'' then map_option (Cons TColon) (lex LTop s)
     else if c = CHR '','' then map_option (Cons TComma) (lex LTop s)
     else if c = CHR 0x22 then lex (LStr []) s
     else if c = CHR ''-'' \<or> isDigit c then lex (LNum [c]) s
     else if c = CHR ''t'' then lex (LLit ''rue'' TTrue) s
     else if c = CHR ''f'' then lex (LLit ''alse'' TFalse) s
     else if c = CHR ''n'' then lex (LLit ''ull'' TNull) s
     else None)"
| "lex (LStr acc) [] = None"
| "lex (LStr acc) (c # s) =
    (if c = CHR 0x22 then map_option (Cons (TString (rev acc))) (lex LTop s)
     else if c = CHR 0x5C then lex (LEsc (c # acc)) s
     else if byte c < 0x20 then None
     else lex (LStr (c # acc)) s)"
| "lex (LEsc acc) [] = None"
| "lex (LEsc acc) (c # s) = lex (LStr (c # acc)) s"
| "lex (LNum acc) [] = (if validNumber (rev acc) then Some [TNumber (rev acc)] else None)"
| "lex (LNum acc) (c # s) =
    (if numberChar c then lex (LNum (c # acc)) s
     else if \<not> validNumber (rev acc) then None
     else if isSpace c then map_option (Cons (TNumber (rev acc))) (lex LTop s)
     else if c = CHR '','' then map_option (\<lambda>t. TNumber (rev acc) # TComma # t) (lex LTop s)
     else if c = CHR '']'' then map_option (\<lambda>t. TNumber (rev acc) # TRBrack # t) (lex LTop s)
     else if c = CHR ''}'' then map_option (\<lambda>t. TNumber (rev acc) # TRBrace # t) (lex LTop s)
     else None)"
| "lex (LLit lit tok) [] = None"
| "lex (LLit lit tok) (c # s) =
    (case lit of
       [] \<Rightarrow> None
     | x # xs \<Rightarrow>
         if c \<noteq> x then None
         else if xs = [] then map_option (Cons tok) (lex LTop s)
         else lex (LLit xs tok) s)"

definition hexval :: "char \<Rightarrow> int option" where
  "hexval c =
    (let b = byte c in
     if 0x30 \<le> b \<and> b \<le> 0x39 then Some (b - 0x30)
     else if 0x61 \<le> b \<and> b \<le> 0x66 then Some (b - 0x61 + 10)
     else if 0x41 \<le> b \<and> b \<le> 0x46 then Some (b - 0x41 + 10)
     else None)"

definition getu4 :: "string \<Rightarrow> int" where
  "getu4 s =
    (case s of
       bs # u # a # b # c # d # _ \<Rightarrow>
         if bs = CHR 0x5C \<and> u = CHR ''u'' then
           (case (hexval a, hexval b, hexval c, hexval d) of
              (Some x3, Some x2, Some x1, Some x0) \<Rightarrow> x3 * 4096 + x2 * 256 + x1 * 16 + x0
            | _ \<Rightarrow> - 1)
         else - 1
     | _ \<Rightarrow> - 1)"

definition utf16_DecodeRune :: "int \<Rightarrow> int \<Rightarrow> int" where
  "utf16_DecodeRune r1 r2 =
    (if 0xD800 \<le> r1 \<and> r1 < 0xDC00 \<and> 0xDC00 \<le> r2 \<and> r2 < 0xE000
     then (r1 - 0xD800) * 1024 + (r2 - 0xDC00) + 0x10000
     else 0xFFFD)"

definition simpleEscape :: "char \<Rightarrow> char option" where
  "simpleEscape e =
    (if e = CHR 0x22 \<or> e = CHR 0x5C \<or> e = CHR ''/'' then Some e
     else if e = CHR ''b'' then Some (CHR 0x08)
     else if e = CHR ''f'' then Some (CHR 0x0C)
     else if e = CHR ''n'' then Some (CHR 0x0A)
     else if e = CHR ''r'' then Some (CHR 0x0D)
     else if e = CHR ''t'' then Some (CHR 0x09)
     else None)"

fun unquote :: "string \<Rightarrow> string option" where
  "unquote [] = Some []"
| "unquote (c # s) =
    (if c = CHR 0x5C then
       (case s of
          [] \<Rightarrow> None
        | e # s' \<Rightarrow>
            if e = CHR ''u'' then
              (let rr = getu4 (c # s) in
               if rr < 0 then None
               else if 0xD800 \<le> rr \<and> rr < 0xE000 then
                 (let dec = utf16_DecodeRune rr (getu4 (drop 5 s)) in
                  if dec \<noteq> 0xFFFD
                  then map_option ((@) (EncodeRune dec)) (unquote (drop 11 s))
                  else map_option ((@) (EncodeRune 0xFFFD)) (unquote (drop 5 s)))
               else map_option ((@) (EncodeRune rr)) (unquote (drop 5 s)))
            else
              (case simpleEscape e of
                 None \<Rightarrow> None
               | Some x \<Rightarrow> map_option (Cons x) (unquote s')))
     else if c = CHR 0x22 \<or> byte c < 0x20 then None
     else if byte c < 0x80 then map_option (Cons c) (unquote s)
     else
       (let (r, w) = DecodeRuneInString (c # s)
        in map_option ((@) (EncodeRune r)) (unquote (drop (w - 1) s))))"

datatype 'f frame =
    InArray "'f json list"
  | InObject "'f object"
  | InMember "'f object" string

datatype 'f pstate =
    BeginValue | BeginValueOrEmpty | BeginStringOrEmpty | BeginString
  | ExpectColon | EndValue | EndTop "'f json"

definition endValue :: "'f json \<Rightarrow> 'f frame list \<Rightarrow> ('f pstate \<times> 'f frame list) option" where
  "endValue v st =
    (case st of
       [] \<Rightarrow> Some (EndTop v, [])
     | InArray es # r \<Rightarrow> Some (EndValue, InArray (es @ [v]) # r)
     | InMember obj k # r \<Rightarrow> Some (EndValue, InObject (AList.update k v obj) # r)
     | InObject obj # r \<Rightarrow> None)"

definition pushParseState :: "'f frame \<Rightarrow> 'f frame list \<Rightarrow> 'f frame list option" where
  "pushParseState fr st = (if int (length st) + 1 \<le> 10000 then Some (fr # st) else None)"

definition beginValue ::
    "(string \<Rightarrow> 'f option) \<Rightarrow> token \<Rightarrow> 'f frame list \<Rightarrow> ('f pstate \<times> 'f frame list) option" where
  "beginValue parseFloat tok st =
    (case tok of
       TString raw \<Rightarrow>
         (case unquote raw of None \<Rightarrow> None | Some s \<Rightarrow> endValue (JString s) st)
     | TNumber lit \<Rightarrow>
         (case parseFloat lit of None \<Rightarrow> None | Some x \<Rightarrow> endValue (JNumber x) st)
     | TTrue \<Rightarrow> endValue (JBool True) st
     | TFalse \<Rightarrow> endValue (JBool False) st
     | TNull \<Rightarrow> endValue JNull st
     | TLBrack \<Rightarrow> map_option (Pair BeginValueOrEmpty) (pushParseState (InArray []) st)
     | TLBrace \<Rightarrow> map_option (Pair BeginStringOrEmpty) (pushParseState (InObject []) st)
     | _ \<Rightarrow> None)"

definition beginString :: "token \<Rightarrow> 'f frame list \<Rightarrow> ('f pstate \<times> 'f frame list) option" where
  "beginString tok st =
    (case tok of
       TString raw \<Rightarrow>
         (case unquote raw of
            None \<Rightarrow> None
          | Some k \<Rightarrow>
              (case st of
                 InObject obj # r \<Rightarrow> Some (ExpectColon, InMember obj k # r)
               | _ \<Rightarrow> None))
     | _ \<Rightarrow> None)"

definition closeArray :: "'f frame list \<Rightarrow> ('f pstate \<times> 'f frame list) option" where
  "closeArray st = (case st of InArray es # r \<Rightarrow> endValue (JArray es) r | _ \<Rightarrow> None)"

definition closeObject :: "'f frame list \<Rightarrow> ('f pstate \<times> 'f frame list) option" where
  "closeObject st = (case st of InObject obj # r \<Rightarrow> endValue (JObject obj) r | _ \<Rightarrow> None)"

definition step ::
    "(string \<Rightarrow> 'f option) \<Rightarrow> 'f pstate \<times> 'f frame list \<Rightarrow> token
      \<Rightarrow> ('f pstate \<times> 'f frame list) option" where
  "step parseFloat ms tok =
    (case ms of (mode, st) \<Rightarrow>
      (case mode of
         BeginValue \<Rightarrow> beginValue parseFloat tok st
       | BeginValueOrEmpty \<Rightarrow>
           if tok = TRBrack then closeArray st else beginValue parseFloat tok st
       | BeginStringOrEmpty \<Rightarrow>
           if tok = TRBrace then closeObject st else beginString tok st
       | BeginString \<Rightarrow> beginString tok st
       | ExpectColon \<Rightarrow> if tok = TColon then Some (BeginValue, st) else None
       | EndValue \<Rightarrow>
           (case st of
              InArray es # r \<Rightarrow>
                if tok = TComma then Some (BeginValue, st)
                else if tok = TRBrack then closeArray st else None
            | InObject obj # r \<Rightarrow>
                if tok = TComma then Some (BeginString, st)
                else if tok = TRBrace then closeObject st else None
            | _ \<Rightarrow> None)
       | EndTop v \<Rightarrow> None))"

fun run :: "(string \<Rightarrow> 'f option) \<Rightarrow> 'f pstate \<times> 'f frame list \<Rightarrow> token list \<Rightarrow> 'f json option" where
  "run parseFloat ms [] = (case fst ms of EndTop v \<Rightarrow> Some v | _ \<Rightarrow> None)"
| "run parseFloat ms (tok # toks) =
    (case step parseFloat ms tok of None \<Rightarrow> None | Some ms' \<Rightarrow> run parseFloat ms' toks)"

definition json_Unmarshal :: "(string \<Rightarrow> 'f option) \<Rightarrow> string \<Rightarrow> 'f object option" where
  "json_Unmarshal parseFloat s =
    (case lex LTop s of
       None \<Rightarrow> None
     | Some toks \<Rightarrow>
         (case run parseFloat (BeginValue, []) toks of
            Some (JObject obj) \<Rightarrow> Some obj
          | Some JNull \<Rightarrow> Some []
          | _ \<Rightarrow> None))"

subsection \<open>\<open>ParseJWT\<close> and \<open>ExtractToken\<close>\<close>

text \<open>
  \<open>ParseJWT\<close> returns a pointer to a \<open>JWT\<close> or an error: the model returns the record
  or the error. The signature is the third segment as it stands, never decoded. The
  check \<open>header["alg"]\<close> of strict mode asks whether the key is present, whatever its
  value. \<open>ExtractToken\<close> returns the header value unchanged when the prefix is empty or
  is not a prefix of it.
\<close>

record 'f JWT =
  Header :: "'f object"
  Payload :: "'f object"
  Signature :: string

definition ParseJWT :: "(string \<Rightarrow> 'f option) \<Rightarrow> string \<Rightarrow> bool \<Rightarrow> error + 'f JWT" where
  "ParseJWT parseFloat token strictMode =
    (case strings_Split token (CHR ''.'') of
       [seg0, seg1, seg2] \<Rightarrow>
         (case base64_DecodeString seg0 of
            None \<Rightarrow> Inl InvalidEncoding
          | Some headerBytes \<Rightarrow>
              (case base64_DecodeString seg1 of
                 None \<Rightarrow> Inl InvalidEncoding
               | Some payloadBytes \<Rightarrow>
                   (case json_Unmarshal parseFloat headerBytes of
                      None \<Rightarrow> Inl InvalidJSON
                    | Some header \<Rightarrow>
                        (case json_Unmarshal parseFloat payloadBytes of
                           None \<Rightarrow> Inl InvalidJSON
                         | Some payload \<Rightarrow>
                             if strictMode \<and> map_of header ''alg'' = None then Inl MissingAlg
                             else Inr \<lparr>Header = header, Payload = payload,
                                       Signature = seg2\<rparr>))))
     | segments \<Rightarrow> Inl (InvalidFormat (length segments)))"

definition ExtractToken :: "string \<Rightarrow> string \<Rightarrow> string" where
  "ExtractToken v pre =
    (if pre = [] then v
     else if take (length pre) v \<noteq> pre then v
     else strings_TrimSpace (drop (length pre) v))"

section \<open>claims.go\<close>

text \<open>The loop of \<open>ExtractClaim\<close> over the parts of the path, \<open>rest = []\<close> at the last part.\<close>

fun navigate :: "'f object \<Rightarrow> string \<Rightarrow> string list \<Rightarrow> error + 'f json" where
  "navigate current path [] = Inl (ClaimNotFound path)"
| "navigate current path (part # rest) =
    (case map_of current part of
       None \<Rightarrow> Inl (ClaimNotFound path)
     | Some v \<Rightarrow>
         if rest = [] then Inr v
         else (case v of
                 JObject nested \<Rightarrow> navigate nested path rest
               | _ \<Rightarrow> Inl (NotAnObject part)))"

definition ExtractClaim :: "'f object \<Rightarrow> string \<Rightarrow> int \<Rightarrow> error + 'f json" where
  "ExtractClaim data path maxDepth =
    (let parts = strings_Split path (CHR ''.'') in
     if int (length parts) > maxDepth then Inl (DepthExceeded maxDepth)
     else navigate data path parts)"

text \<open>
  \<open>ConvertClaimToString\<close> on the values that \<open>json.Unmarshal\<close> produces. The digits of
  a number are those of \<open>strconv.FormatFloat(v, 'f', -1, 64)\<close>, the parameter
  \<open>formatFloat\<close>; arrays in the \<open>json\<close> format and objects are written by
  \<open>json.Marshal\<close>, the parameter \<open>marshal\<close>, \<open>None\<close> being its error. The cases \<open>int\<close>
  and \<open>default\<close> of the type switch are not reached from a decoded token and are left
  out.
\<close>

fun strings_Join :: "string list \<Rightarrow> string \<Rightarrow> string" where
  "strings_Join [] sep = []"
| "strings_Join [p] sep = p"
| "strings_Join (p # ps) sep = p @ sep @ strings_Join ps sep"

fun ConvertClaimToString ::
      "('f \<Rightarrow> string) \<Rightarrow> ('f json \<Rightarrow> string option) \<Rightarrow> 'f json \<Rightarrow> string \<Rightarrow> error + string"
  and convertElems ::
      "('f \<Rightarrow> string) \<Rightarrow> ('f json \<Rightarrow> string option) \<Rightarrow> 'f json list \<Rightarrow> string
        \<Rightarrow> error + string list" where
  "ConvertClaimToString formatFloat marshal JNull arrayFormat = Inr []"
| "ConvertClaimToString formatFloat marshal (JString v) arrayFormat = Inr v"
| "ConvertClaimToString formatFloat marshal (JBool v) arrayFormat =
    Inr (if v then ''true'' else ''false'')"
| "ConvertClaimToString formatFloat marshal (JNumber v) arrayFormat = Inr (formatFloat v)"
| "ConvertClaimToString formatFloat marshal (JArray v) arrayFormat =
    (if arrayFormat = ''json'' then
       (case marshal (JArray v) of None \<Rightarrow> Inl MarshalFailed | Some jsonBytes \<Rightarrow> Inr jsonBytes)
     else
       (case convertElems formatFloat marshal v arrayFormat of
          Inl err \<Rightarrow> Inl err
        | Inr parts \<Rightarrow> Inr (strings_Join parts '', '')))"
| "ConvertClaimToString formatFloat marshal (JObject v) arrayFormat =
    (case marshal (JObject v) of None \<Rightarrow> Inl MarshalFailed | Some jsonBytes \<Rightarrow> Inr jsonBytes)"
| "convertElems formatFloat marshal [] arrayFormat = Inr []"
| "convertElems formatFloat marshal (elem # rest) arrayFormat =
    (case ConvertClaimToString formatFloat marshal elem arrayFormat of
       Inl err \<Rightarrow> Inl err
     | Inr elemStr \<Rightarrow>
         (case convertElems formatFloat marshal rest arrayFormat of
            Inl err \<Rightarrow> Inl err
          | Inr parts \<Rightarrow> Inr (elemStr # parts)))"

text \<open>
  A document nested \<open>n\<close> levels deep under the key \<open>a\<close>, and the path \<open>a.a. ... .a\<close>
  of \<open>n\<close> segments that leads to its leaf.
\<close>

fun nested_doc :: "nat \<Rightarrow> 'f object" where
  "nested_doc 0 = [(''a'', JNull)]"
| "nested_doc (Suc n) = [(''a'', JObject (nested_doc n))]"

fun nested_path :: "nat \<Rightarrow> string" where
  "nested_path 0 = ''a''"
| "nested_path (Suc n) = ''a.'' @ nested_path n"

section \<open>Configuration and the request handler\<close>

record ClaimMapping =
  ClaimPath :: string
  HeaderName :: string
  Override :: bool
  ArrayFormat :: string

record Config =
  SourceHeader :: string
  TokenPrefix :: string
  Claims :: "ClaimMapping list"
  Sections :: "string list"
  ContinueOnError :: bool
  RemoveSourceHeader :: bool
  MaxClaimDepth :: int
  MaxHeaderSize :: int
  LogLevel :: string
  StrictMode :: bool
  LogMissingClaims :: bool

text \<open>\<open>CreateConfig\<close>: the configuration with its default values.\<close>

definition CreateConfig :: Config where
  "CreateConfig =
    \<lparr>SourceHeader = ''Authorization'', TokenPrefix = ''Bearer '', Claims = [],
     Sections = [''payload''], ContinueOnError = True, RemoveSourceHeader = False,
     MaxClaimDepth = 10, MaxHeaderSize = 8192, LogLevel = ''warn'', StrictMode = False,
     LogMissingClaims = False\<rparr>"

text \<open>
  The library functions that are parameters of the model: \<open>unicode.ToLower\<close> on runes
  outside ASCII, the conversions between text and 64-bit floats, and \<open>json.Marshal\<close>.
\<close>

record 'f stdlib =
  unicode_ToLower :: "int \<Rightarrow> int"
  strconv_ParseFloat :: "string \<Rightarrow> 'f option"
  strconv_FormatFloat :: "'f \<Rightarrow> string"
  json_Marshal :: "'f json \<Rightarrow> string option"

text \<open>
  What a call of \<open>ServeHTTP\<close> leaves behind: the headers of the request, whether the
  request was passed to the next handler, and the response the plugin wrote itself, if
  any. The body of that response is the map handed to the JSON encoder. Log lines are
  not modelled. The handler calls \<open>ParseJWT\<close> on the token alone; the strict mode that
  \<open>ParseJWT\<close> of \<open>jwt.go\<close> expects is a parameter of the model of \<open>ServeHTTP\<close>, so that
  what is proved holds for either value. A section other than \<open>payload\<close> and \<open>header\<close>
  leaves \<open>data\<close> the nil map, in which no claim is found.
\<close>

record response =
  respHeader :: Header
  statusCode :: int
  respBody :: "(string \<times> string) list"

record served =
  reqHeader :: Header
  forwarded :: bool
  written :: "response option"

definition returnError :: "string \<Rightarrow> string \<Rightarrow> response" where
  "returnError errorType message =
    \<lparr>respHeader = Header_Set Map.empty ''Content-Type'' ''application/json'',
     statusCode = 401,
     respBody = [(''error'', errorType), (''message'', message)]\<rparr>"

fun findClaim :: "'f JWT \<Rightarrow> string list \<Rightarrow> string \<Rightarrow> int \<Rightarrow> 'f json option" where
  "findClaim jwt [] path maxDepth = None"
| "findClaim jwt (section # rest) path maxDepth =
    (let data = (if section = ''payload'' then Payload jwt
                 else if section = ''header'' then Header jwt
                 else [])
     in case ExtractClaim data path maxDepth of
          Inr v \<Rightarrow> Some v
        | Inl err \<Rightarrow> findClaim jwt rest path maxDepth)"

fun processClaims :: "'f stdlib \<Rightarrow> Config \<Rightarrow> 'f JWT \<Rightarrow> ClaimMapping list \<Rightarrow> Header \<Rightarrow> Header" where
  "processClaims lib config jwt [] h = h"
| "processClaims lib config jwt (claimMapping # rest) h =
    (case findClaim jwt (Sections config) (ClaimPath claimMapping) (MaxClaimDepth config) of
       None \<Rightarrow> processClaims lib config jwt rest h
     | Some claimValue \<Rightarrow>
         (case ConvertClaimToString (strconv_FormatFloat lib) (json_Marshal lib) claimValue
                 (ArrayFormat claimMapping) of
            Inl err \<Rightarrow> processClaims lib config jwt rest h
          | Inr strValue \<Rightarrow>
              processClaims lib config jwt rest
                (fst (InjectHeader (unicode_ToLower lib) h (HeaderName claimMapping) strValue
                        (Override claimMapping) (MaxHeaderSize config)))))"

definition ServeHTTP :: "'f stdlib \<Rightarrow> bool \<Rightarrow> Config \<Rightarrow> Header \<Rightarrow> served" where
  "ServeHTTP lib strictMode config h =
    (let headerValue = Header_Get h (SourceHeader config) in
     if headerValue = [] then
       (if ContinueOnError config then \<lparr>reqHeader = h, forwarded = True, written = None\<rparr>
        else \<lparr>reqHeader = h, forwarded = False,
              written = Some (returnError ''unauthorized'' ''missing JWT token'')\<rparr>)
     else
       (case ParseJWT (strconv_ParseFloat lib) (ExtractToken headerValue (TokenPrefix config))
               strictMode of
          Inl err \<Rightarrow>
            (if ContinueOnError config then \<lparr>reqHeader = h, forwarded = True, written = None\<rparr>
             else \<lparr>reqHeader = h, forwarded = False,
                   written = Some (returnError ''unauthorized'' ''invalid JWT token'')\<rparr>)
        | Inr jwt \<Rightarrow>
            (let h1 = processClaims lib config jwt (Claims config) h;
                 h2 = (if RemoveSourceHeader config then Header_Del h1 (SourceHeader config)
                       else h1)
             in \<lparr>reqHeader = h2, forwarded = True, written = None\<rparr>)))"

section \<open>Notions used in the proofs\<close>

text \<open>
  The runes that have a UTF-8 encoding of their own, the encoding of a list of runes, the
  ASCII white space as runes, and trimming white space from both ends of a list of runes.
\<close>

definition validRune :: "int \<Rightarrow> bool" where
  "validRune r = (0 \<le> r \<and> r \<le> 0x10FFFF \<and> \<not> (0xD800 \<le> r \<and> r \<le> 0xDFFF))"

definition encodeAll :: "int list \<Rightarrow> string" where
  "encodeAll rs = concat (map EncodeRune rs)"

definition asciiSpaceRune :: "int \<Rightarrow> bool" where
  "asciiSpaceRune r = ((0x09 \<le> r \<and> r \<le> 0x0D) \<or> r = 0x20)"

definition trimRunes :: "int list \<Rightarrow> int list" where
  "trimRunes rs = rev (dropWhile unicode_IsSpace (rev (dropWhile unicode_IsSpace rs)))"

section \<open>JSON texts\<close>

text \<open>
  Modelled from the spec: \<open>json(h)\<close>, the JSON text of a claim value, written as
  \<open>json.Marshal\<close> of \<open>encoding/json\<close> (Go 1.21) writes it. There is no white space. In a
  string, a quote and a backslash are written after a backslash; line feed, carriage
  return and tab are written as a backslash and \<open>n\<close>, \<open>r\<close> or \<open>t\<close>; any other byte below
  \<open>0x20\<close> and the bytes \<open><\<close>, \<open>>\<close> and \<open>&\<close> are written as a backslash and \<open>u00\<close> with two
  hexadecimal digits; the runes \<open>0x2028\<close> and \<open>0x2029\<close> are written as a backslash and
  \<open>u2028\<close> or \<open>u2029\<close>; a byte that is not part of a well-formed UTF-8 sequence is written
  as a backslash and \<open>ufffd\<close>; every other byte is written as it is. The text of a number
  is that of the parameter \<open>formatFloat\<close>. The members of an object are written in the
  order of the association list: the library writes them sorted by key, which is one of
  the orders covered.
\<close>

definition hexDigit :: "int \<Rightarrow> char" where
  "hexDigit v = (if v < 10 then char_of (0x30 + v) else char_of (0x61 + (v - 10)))"

fun appendString :: "string \<Rightarrow> string" where
  "appendString [] = []"
| "appendString (c # s) =
    (let b = byte c in
     if b < 0x80 then
       (if c = CHR 0x22 \<or> c = CHR 0x5C then [CHR 0x5C, c]
        else if c = CHR 0x0A then [CHR 0x5C, CHR ''n'']
        else if c = CHR 0x0D then [CHR 0x5C, CHR ''r'']
        else if c = CHR 0x09 then [CHR 0x5C, CHR ''t'']
        else if b < 0x20 \<or> c = CHR ''<'' \<or> c = CHR ''>'' \<or> c = CHR ''&''
          then [CHR 0x5C, CHR ''u'', CHR ''0'', CHR ''0'', hexDigit (b div 16), hexDigit (b mod 16)]
        else [c])
       @ appendString s
     else
       (let (r, width) = DecodeRuneInString (c # s) in
        if r = RuneError \<and> width = 1
          then [CHR 0x5C, CHR ''u'', CHR ''f'', CHR ''f'', CHR ''f'', CHR ''d''] @ appendString s
        else if r = 0x2028 \<or> r = 0x2029
          then [CHR 0x5C, CHR ''u'', CHR ''2'', CHR ''0'', CHR ''2'', hexDigit (r mod 16)]
               @ appendString (drop (width - 1) s)
        else take width (c # s) @ appendString (drop (width - 1) s)))"

definition quoteString :: "string \<Rightarrow> string" where
  "quoteString s = [CHR 0x22] @ appendString s @ [CHR 0x22]"

fun jsonText :: "('f \<Rightarrow> string) \<Rightarrow> 'f json \<Rightarrow> string"
  and moreElems :: "('f \<Rightarrow> string) \<Rightarrow> 'f json list \<Rightarrow> string"
  and memberText :: "('f \<Rightarrow> string) \<Rightarrow> string \<Rightarrow> 'f json \<Rightarrow> string"
  and moreMembers :: "('f \<Rightarrow> string) \<Rightarrow> (string \<times> 'f json) list \<Rightarrow> string" where
  "jsonText formatFloat JNull = ''null''"
| "jsonText formatFloat (JBool b) = (if b then ''true'' else ''false'')"
| "jsonText formatFloat (JNumber x) = formatFloat x"
| "jsonText formatFloat (JString s) = quoteString s"
| "jsonText formatFloat (JArray []) = ''[]''"
| "jsonText formatFloat (JArray (x # xs)) =
    ''['' @ jsonText formatFloat x @ moreElems formatFloat xs @ '']''"
| "jsonText formatFloat (JObject []) = ''{}''"
| "jsonText formatFloat (JObject ((k, v) # kvs)) =
    ''{'' @ memberText formatFloat k v @ moreMembers formatFloat kvs @ ''}''"
| "moreElems formatFloat [] = []"
| "moreElems formatFloat (x # xs) = '','' @ jsonText formatFloat x @ moreElems formatFloat xs"
| "memberText formatFloat k v = quoteString k @ '':'' @ jsonText formatFloat v"
| "moreMembers formatFloat [] = []"
| "moreMembers formatFloat ((k, v) # kvs) =
    '','' @ memberText formatFloat k v @ moreMembers formatFloat kvs"

text \<open>
  The claim values that are JSON values. A string is well-formed UTF-8 when reading it
  rune by rune and encoding the runes again gives the string back: a byte outside a
  well-formed sequence is read as \<open>RuneError\<close>, whose encoding takes three bytes. In a
  well-formed value every string and every key is well-formed UTF-8, the keys of an
  object are distinct, as the keys of a Go map are, and every number has a text that
  follows the JSON grammar and that \<open>parseFloat\<close> reads back as the number, as
  \<open>strconv.ParseFloat\<close> does with the text the library writes for a finite float.
  \<open>nesting\<close> is the greatest number of arrays and objects that are open at once while
  the text of the value is read.
\<close>

definition validString :: "string \<Rightarrow> bool" where
  "validString s = (encodeAll (runes s) = s)"

fun wellFormed :: "('f \<Rightarrow> string) \<Rightarrow> (string \<Rightarrow> 'f option) \<Rightarrow> 'f json \<Rightarrow> bool" where
  "wellFormed formatFloat parseFloat JNull = True"
| "wellFormed formatFloat parseFloat (JBool b) = True"
| "wellFormed formatFloat parseFloat (JNumber x) =
    (validNumber (formatFloat x) \<and> parseFloat (formatFloat x) = Some x)"
| "wellFormed formatFloat parseFloat (JString s) = validString s"
| "wellFormed formatFloat parseFloat (JArray xs) =
    (\<forall>x \<in> set xs. wellFormed formatFloat parseFloat x)"
| "wellFormed formatFloat parseFloat (JObject kvs) =
    (distinct (map fst kvs)
     \<and> (\<forall>kv \<in> set kvs. validString (fst kv) \<and> wellFormed formatFloat parseFloat (snd kv)))"

fun nesting :: "'f json \<Rightarrow> int" where
  "nesting (JArray xs) = 1 + foldr max (map nesting xs) 0"
| "nesting (JObject kvs) = 1 + foldr max (map (\<lambda>kv. nesting (snd kv)) kvs) 0"
| "nesting v = 0"

text \<open>
  For the proofs: what \<open>appendString\<close> writes for one rune, the bytes that may stand in a
  JSON string as they are, the texts that may follow a number, and the tokens of the text
  of a value.
\<close>

definition escapeRune :: "int \<Rightarrow> string" where
  "escapeRune r =
    (if r < 0x80 then
       (if r = 0x22 \<or> r = 0x5C then [CHR 0x5C, char_of r]
        else if r = 0x0A then [CHR 0x5C, CHR ''n'']
        else if r = 0x0D then [CHR 0x5C, CHR ''r'']
        else if r = 0x09 then [CHR 0x5C, CHR ''t'']
        else if r < 0x20 \<or> r = 0x3C \<or> r = 0x3E \<or> r = 0x26
          then [CHR 0x5C, CHR ''u'', CHR ''0'', CHR ''0'', hexDigit (r div 16), hexDigit (r mod 16)]
        else [char_of r])
     else if r = 0x2028 \<or> r = 0x2029
       then [CHR 0x5C, CHR ''u'', CHR ''2'', CHR ''0'', CHR ''2'', hexDigit (r mod 16)]
     else EncodeRune r)"

definition plain :: "char \<Rightarrow> bool" where
  "plain c = (c \<noteq> CHR 0x22 \<and> c \<noteq> CHR 0x5C \<and> \<not> byte c < 0x20)"

definition delimited :: "string \<Rightarrow> bool" where
  "delimited rest =
    (case rest of [] \<Rightarrow> True | c # _ \<Rightarrow> c = CHR '','' \<or> c = CHR '']'' \<or> c = CHR ''}'')"

fun tokens :: "('f \<Rightarrow> string) \<Rightarrow> 'f json \<Rightarrow> token list" where
  "tokens formatFloat JNull = [TNull]"
| "tokens formatFloat (JBool b) = [if b then TTrue else TFalse]"
| "tokens formatFloat (JNumber x) = [TNumber (formatFloat x)]"
| "tokens formatFloat (JString s) = [TString (appendString s)]"
| "tokens formatFloat (JArray []) = [TLBrack, TRBrack]"
| "tokens formatFloat (JArray (x # xs)) =
    TLBrack # tokens formatFloat x
    @ concat (map (\<lambda>y. TComma # tokens formatFloat y) xs) @ [TRBrack]"
| "tokens formatFloat (JObject []) = [TLBrace, TRBrace]"
| "tokens formatFloat (JObject (kv # kvs)) =
    TLBrace # TString (appendString (fst kv)) # TColon # tokens formatFloat (snd kv)
    @ concat (map (\<lambda>kv. TComma # TString (appendString (fst kv)) # TColon
                          # tokens formatFloat (snd kv)) kvs)
    @ [TRBrace]"

section \<open>Properties\<close>

subsection \<open>Header injection\<close>

text \<open>
  Claim C1. For a header name whose lower-case form is in the protected set, whatever the
  raw value, the override flag and the size limit, \<open>InjectHeader\<close> returns no error and
  leaves the header collection of the request as it was, the protected header's own
  value included.
\<close>

theorem InjectHeader_protected:
  assumes "strings_ToLower lower name \<in> set protectedHeaders"
  shows "InjectHeader lower h name v override maxSize = (h, None)"
  using assms by (simp add: InjectHeader_def IsProtectedHeader_def)

theorem InjectHeader_protected_witness:
  "strings_ToLower (\<lambda>r. r) ''X-Forwarded-For'' \<in> set protectedHeaders
   \<and> InjectHeader (\<lambda>r. r) [''X-Forwarded-For'' \<mapsto> [''10.0.0.1'']] ''X-Forwarded-For''
         ''6.6.6.6'' True 8192
       = ([''X-Forwarded-For'' \<mapsto> [''10.0.0.1'']], None)"
proof -
  have p: "strings_ToLower (\<lambda>r. r) ''X-Forwarded-For'' \<in> set protectedHeaders"
    by code_simp
  show ?thesis
    using p InjectHeader_protected [OF p] by simp
qed

text \<open>
  Claim C9. \<open>InjectHeader\<close> changes at most the entry of the header it is called with
  (the entry under the canonical form of the name): every other entry of the collection
  keeps its value. When it returns an error the whole collection is unchanged.
\<close>

theorem InjectHeader_frame:
  "(\<forall>k. k \<noteq> CanonicalMIMEHeaderKey name \<longrightarrow>
        fst (InjectHeader lower h name v override maxSize) k = h k)
   \<and> (snd (InjectHeader lower h name v override maxSize) \<noteq> None \<longrightarrow>
        fst (InjectHeader lower h name v override maxSize) = h)"
  by (simp add: InjectHeader_def Header_Set_def split: sum.splits)

theorem InjectHeader_frame_witness:
  "''Host'' \<noteq> CanonicalMIMEHeaderKey ''x-user-id''
   \<and> fst (InjectHeader (\<lambda>r. r) [''Host'' \<mapsto> [''example.com'']] ''x-user-id'' ''12345678''
               False 4) ''Host''
       = Some [''example.com'']
   \<and> snd (InjectHeader (\<lambda>r. r) [''Host'' \<mapsto> [''example.com'']] ''x-user-id'' ''12345678''
               False 4) \<noteq> None
   \<and> fst (InjectHeader (\<lambda>r. r) [''Host'' \<mapsto> [''example.com'']] ''x-user-id'' ''12345678''
               False 4)
       = [''Host'' \<mapsto> [''example.com'']]"
proof -
  have k: "''Host'' \<noteq> CanonicalMIMEHeaderKey ''x-user-id''"
    by code_simp
  have e: "snd (InjectHeader (\<lambda>r. r) [''Host'' \<mapsto> [''example.com'']] ''x-user-id''
                  ''12345678'' False 4) \<noteq> None"
    by (simp add: InjectHeader_def IsProtectedHeader_def strings_ToLower_def ascii_lower_def
        protectedHeaders_def SanitizeHeaderValue_def)
  show ?thesis
    using k e InjectHeader_frame [of "''x-user-id''" "\<lambda>r. r" "[''Host'' \<mapsto> [''example.com'']]"
        "''12345678''" False 4]
    by simp
qed

subsection \<open>Sanitization\<close>

lemma byte_range: "0 \<le> byte c \<and> byte c < 256"
proof -
  have "byte c = int (of_char c)"
    by (simp add: of_nat_of_char)
  moreover have "(of_char c :: nat) < 256"
    by simp
  ultimately show ?thesis
    by linarith
qed

lemma byte_char_of: "0 \<le> k \<Longrightarrow> k < 256 \<Longrightarrow> byte (char_of k) = k"
  by simp

lemma pack_div: "0 \<le> (y::int) \<Longrightarrow> y < n \<Longrightarrow> (x * n + y) div n = x"
  by (simp add: div_pos_pos_trivial)

lemma pack_mod: "0 \<le> (y::int) \<Longrightarrow> y < n \<Longrightarrow> (x * n + y) mod n = y"
  by (simp add: mod_pos_pos_trivial)

lemma EncodeRune_no_control:
  assumes "0 \<le> r" and "\<not> controlRune r" and "c \<in> set (EncodeRune r)"
  shows "\<not> controlByte c"
proof -
  consider "r \<le> 0x7F" | "0x7F < r" "r \<le> 0x7FF"
    | "0x7FF < r" "0x10FFFF < r \<or> (0xD800 \<le> r \<and> r \<le> 0xDFFF)"
    | "0x7FF < r" "r \<le> 0xFFFF" "\<not> (0xD800 \<le> r \<and> r \<le> 0xDFFF)"
    | "0xFFFF < r" "r \<le> 0x10FFFF"
    by linarith
  then show ?thesis
  proof cases
    case 1
    with assms show ?thesis
      by (auto simp: EncodeRune_def controlByte_def controlRune_def)
  next
    case 2
    with assms show ?thesis
      by (auto simp: EncodeRune_def controlByte_def)
  next
    case 3
    with assms show ?thesis
      by (auto simp: EncodeRune_def controlByte_def)
  next
    case 4
    with assms show ?thesis
      by (auto simp: EncodeRune_def controlByte_def)
  next
    case 5
    with assms show ?thesis
      by (auto simp: EncodeRune_def controlByte_def)
  qed
qed


lemma strings_Map_no_control:
  "c \<in> set (strings_Map (\<lambda>r. if controlRune r then - 1 else r) s) \<Longrightarrow> \<not> controlByte c"
proof (induction "\<lambda>r. if controlRune r then - 1 else (r::int)" s rule: strings_Map.induct)
  case 1
  then show ?case by simp
next
  case (2 c0 s)
  obtain r0 w where d: "DecodeRuneInString (c0 # s) = (r0, w)"
    by (cases "DecodeRuneInString (c0 # s)")
  show ?case
  proof (cases "c \<in> set (strings_Map (\<lambda>r. if controlRune r then - 1 else r) (drop (w - 1) s))")
    case True
    with 2 d show ?thesis by simp
  next
    case False
    with "2.prems" d have "0 \<le> r0" "\<not> controlRune r0" "c \<in> set (EncodeRune r0)"
      by (auto split: if_splits)
    then show ?thesis
      by (rule EncodeRune_no_control)
  qed
qed

lemma set_TrimLeftFunc: "set (TrimLeftFunc f s) \<subseteq> set s"
proof (induction f s rule: TrimLeftFunc.induct)
  case (1 f)
  then show ?case by simp
next
  case (2 f c s)
  obtain r w where d: "DecodeRuneInString (c # s) = (r, w)"
    by (cases "DecodeRuneInString (c # s)")
  show ?case
  proof (cases "f r")
    case True
    with 2 d have "set (TrimLeftFunc f (c # s)) \<subseteq> set (drop (w - 1) s)"
      by simp
    also have "\<dots> \<subseteq> set (c # s)"
      using set_drop_subset [of "w - 1" s] by auto
    finally show ?thesis .
  next
    case False
    with d show ?thesis by simp
  qed
qed

lemma set_TrimRightFunc: "set (TrimRightFunc f s) \<subseteq> set s"
  by (simp add: TrimRightFunc_def Let_def set_take_subset)

lemma set_strings_TrimSpace: "set (strings_TrimSpace s) \<subseteq> set s"
proof (cases "dropWhile asciiSpace s")
  case Nil
  show ?thesis
    unfolding strings_TrimSpace_def Nil by simp
next
  case (Cons c s1)
  have sub: "set (c # s1) \<subseteq> set s"
    using set_dropWhileD [of _ asciiSpace s] Cons by auto
  have t: "set (rev (dropWhile asciiSpace (rev (c # s1)))) \<subseteq> set (c # s1)"
    using set_dropWhileD [of _ asciiSpace "rev (c # s1)"] by auto
  have "set (strings_TrimSpace s) \<subseteq> set (c # s1)"
  proof (cases "0x80 \<le> byte c")
    case True
    have "set (TrimFunc unicode_IsSpace (c # s1)) \<subseteq> set (c # s1)"
      unfolding TrimFunc_def
      using set_TrimRightFunc [of unicode_IsSpace "TrimLeftFunc unicode_IsSpace (c # s1)"]
        set_TrimLeftFunc [of unicode_IsSpace "c # s1"] by blast
    with True Cons show ?thesis
      by (simp add: strings_TrimSpace_def)
  next
    case False
    show ?thesis
    proof (cases "0x80 \<le> byte (last (rev (dropWhile asciiSpace (rev (c # s1)))))")
      case True
      with False Cons have "strings_TrimSpace s =
          TrimRightFunc unicode_IsSpace (rev (dropWhile asciiSpace (rev (c # s1))))"
        by (simp add: strings_TrimSpace_def Let_def)
      with t set_TrimRightFunc [of unicode_IsSpace "rev (dropWhile asciiSpace (rev (c # s1)))"]
      show ?thesis by auto
    next
      case b: False
      with False Cons have "strings_TrimSpace s = rev (dropWhile asciiSpace (rev (c # s1)))"
        by (simp add: strings_TrimSpace_def Let_def)
      with t show ?thesis by simp
    qed
  qed
  with sub show ?thesis by blast
qed


lemma DecodeRuneInString_multi:
  assumes "DecodeRuneInString (c # s) = (r, w)" and "\<not> byte c < 0x80"
  shows "(r = RuneError \<and> w = 1)
    \<or> (w = 2 \<and> 0xC2 \<le> byte c \<and> byte c < 0xE0
        \<and> r = (byte c mod 32) * 64 + byte (s ! 0) mod 64)
    \<or> (w = 3 \<and> 0xE0 \<le> byte c \<and> byte c < 0xF0
        \<and> (byte c = 0xE0 \<longrightarrow> 0xA0 \<le> byte (s ! 0)) \<and> byte (s ! 0) \<le> 0xBF
        \<and> r = (byte c mod 16) * 4096 + (byte (s ! 0) mod 64) * 64 + byte (s ! 1) mod 64)
    \<or> (w = 4 \<and> 0xF0 \<le> byte c \<and> byte c \<le> 0xF4
        \<and> (byte c = 0xF0 \<longrightarrow> 0x90 \<le> byte (s ! 0)) \<and> byte (s ! 0) \<le> 0xBF
        \<and> r = (byte c mod 8) * 262144 + (byte (s ! 0) mod 64) * 4096
              + (byte (s ! 1) mod 64) * 64 + byte (s ! 2) mod 64)"
  using assms
  by (simp add: Let_def utf8_size_def accept_lo_def accept_hi_def split: if_splits)

lemma mod32_lead: "0xC2 \<le> (b::int) \<Longrightarrow> b < 0xE0 \<Longrightarrow> 2 \<le> b mod 32"
  by presburger

lemma mod16_lead: "0xE0 < (b::int) \<Longrightarrow> b < 0xF0 \<Longrightarrow> 1 \<le> b mod 16"
  by presburger

lemma mod8_lead: "0xF0 < (b::int) \<Longrightarrow> b \<le> 0xF4 \<Longrightarrow> 1 \<le> b mod 8"
  by presburger

lemma mod64_A0: "0xA0 \<le> (b::int) \<Longrightarrow> b \<le> 0xBF \<Longrightarrow> 32 \<le> b mod 64"
  by presburger

lemma mod64_90: "0x90 \<le> (b::int) \<Longrightarrow> b \<le> 0xBF \<Longrightarrow> 16 \<le> b mod 64"
  by presburger

lemma DecodeRuneInString_ascii:
  assumes "DecodeRuneInString (c # s) = (r, w)" and "r < 0x80"
  shows "r = byte c"
proof (cases "byte c < 0x80")
  case True
  with assms show ?thesis by (simp add: Let_def)
next
  case False
  define a0 where "a0 = byte c mod 32"
  define b0 where "b0 = byte c mod 16"
  define c0 where "c0 = byte c mod 8"
  define a1 where "a1 = byte (s ! 0) mod 64"
  define a2 where "a2 = byte (s ! 1) mod 64"
  define a3 where "a3 = byte (s ! 2) mod 64"
  have nn: "0 \<le> a0" "0 \<le> b0" "0 \<le> c0" "0 \<le> a1" "0 \<le> a2" "0 \<le> a3"
    by (simp_all add: a0_def b0_def c0_def a1_def a2_def a3_def)
  from DecodeRuneInString_multi [OF assms(1) False]
  consider "r = RuneError"
    | "0xC2 \<le> byte c" "byte c < 0xE0" "r = a0 * 64 + a1"
    | "0xE0 \<le> byte c" "byte c < 0xF0" "byte c = 0xE0 \<longrightarrow> 0xA0 \<le> byte (s ! 0)"
      "byte (s ! 0) \<le> 0xBF" "r = b0 * 4096 + a1 * 64 + a2"
    | "0xF0 \<le> byte c" "byte c \<le> 0xF4" "byte c = 0xF0 \<longrightarrow> 0x90 \<le> byte (s ! 0)"
      "byte (s ! 0) \<le> 0xBF" "r = c0 * 262144 + a1 * 4096 + a2 * 64 + a3"
    unfolding a0_def b0_def c0_def a1_def a2_def a3_def by blast
  then have "0x80 \<le> r"
  proof cases
    case 1
    then show ?thesis by (simp add: RuneError_def)
  next
    case 2
    then have "2 \<le> a0"
      unfolding a0_def by (intro mod32_lead)
    with 2 nn show ?thesis by linarith
  next
    case 3
    show ?thesis
    proof (cases "byte c = 0xE0")
      case True
      with 3 have "32 \<le> a1"
        unfolding a1_def by (intro mod64_A0) simp_all
      with 3 nn show ?thesis by linarith
    next
      case False
      with 3 have "1 \<le> b0"
        unfolding b0_def by (intro mod16_lead) simp_all
      with 3 nn show ?thesis by linarith
    qed
  next
    case 4
    show ?thesis
    proof (cases "byte c = 0xF0")
      case True
      with 4 have "16 \<le> a1"
        unfolding a1_def by (intro mod64_90) simp_all
      with 4 nn show ?thesis by linarith
    next
      case False
      with 4 have "1 \<le> c0"
        unfolding c0_def by (intro mod8_lead) simp_all
      with 4 nn show ?thesis by linarith
    qed
  qed
  with assms(2) show ?thesis by simp
qed

lemma runes_ascii:
  "r \<in> set (runes s) \<Longrightarrow> r < 0x80 \<Longrightarrow> \<exists>c \<in> set s. byte c = r"
proof (induction s rule: runes.induct)
  case 1
  then show ?case by simp
next
  case (2 c s)
  obtain r0 w where d: "DecodeRuneInString (c # s) = (r0, w)"
    by (cases "DecodeRuneInString (c # s)")
  show ?case
  proof (cases "r = r0")
    case True
    with d "2.prems" have "r = byte c"
      using DecodeRuneInString_ascii by blast
    then show ?thesis by auto
  next
    case False
    with "2.prems" d have "r \<in> set (runes (drop (w - 1) s))"
      by simp
    with 2 d obtain c' where "c' \<in> set (drop (w - 1) s)" "byte c' = r"
      by fastforce
    then show ?thesis
      using set_drop_subset [of "w - 1" s] by auto
  qed
qed

text \<open>\<open>EncodeRune\<close> and \<open>DecodeRuneInString\<close> are inverse on the runes that have an encoding.\<close>

lemma mod64_range: "0 \<le> (x::int) mod 64 \<and> x mod 64 \<le> 63"
  by simp

lemma lead2_mod: "0 \<le> (q::int) \<Longrightarrow> q \<le> 31 \<Longrightarrow> (0xC0 + q) mod 32 = q"
  using pack_mod [of q 32 6] by simp

lemma lead3_mod: "0 \<le> (q::int) \<Longrightarrow> q \<le> 15 \<Longrightarrow> (0xE0 + q) mod 16 = q"
  using pack_mod [of q 16 14] by simp

lemma lead4_mod: "0 \<le> (q::int) \<Longrightarrow> q \<le> 4 \<Longrightarrow> (0xF0 + q) mod 8 = q"
  using pack_mod [of q 8 30] by simp

lemma cont_mod: "0 \<le> (m::int) \<Longrightarrow> m \<le> 63 \<Longrightarrow> (0x80 + m) mod 64 = m"
  using pack_mod [of m 64 2] by simp

lemma recompose2: "(r::int) div 64 * 64 + r mod 64 = r"
  by simp

lemma recompose3: "(r::int) div 4096 * 4096 + r div 64 mod 64 * 64 + r mod 64 = r"
proof -
  define u where "u = r div 64"
  define v where "v = u div 64"
  define w where "w = u mod 64"
  define m where "m = r mod 64"
  have a: "r div 4096 = v"
    unfolding v_def u_def using zdiv_zmult2_eq [of 64 r 64] by simp
  have b: "v * 64 + w = u"
    unfolding v_def w_def by simp
  have c: "u * 64 + m = r"
    unfolding u_def m_def by simp
  from b c have "v * 4096 + w * 64 + m = r"
    by linarith
  then show ?thesis
    unfolding a u_def [symmetric] w_def [symmetric] m_def [symmetric] .
qed

lemma recompose4:
  "(r::int) div 262144 * 262144 + r div 4096 mod 64 * 4096 + r div 64 mod 64 * 64 + r mod 64 = r"
proof -
  define u where "u = r div 4096"
  define v where "v = u div 64"
  define w where "w = u mod 64"
  have a: "r div 262144 = v"
    unfolding v_def u_def using zdiv_zmult2_eq [of 64 r 4096] by simp
  have b: "v * 64 + w = u"
    unfolding v_def w_def by simp
  define x where "x = r div 64 mod 64"
  define m where "m = r mod 64"
  have c: "u * 4096 + x * 64 + m = r"
    unfolding u_def x_def m_def by (rule recompose3)
  from b c have "v * 262144 + w * 4096 + x * 64 + m = r"
    by linarith
  then show ?thesis
    unfolding a u_def [symmetric] w_def [symmetric] x_def [symmetric] m_def [symmetric] .
qed

lemma DecodeRuneInString_EncodeRune1:
  assumes "0 \<le> r" and "r \<le> 0x7F"
  shows "EncodeRune r = [char_of r]"
    and "DecodeRuneInString (EncodeRune r @ rest) = (r, 1)"
  using assms by (simp_all add: EncodeRune_def)

lemma DecodeRuneInString_EncodeRune2:
  assumes "0x80 \<le> r" and "r \<le> 0x7FF"
  shows "\<exists>c0 c1. EncodeRune r = [c0, c1] \<and> 0xC2 \<le> byte c0 \<and> 0x80 \<le> byte c1 \<and> byte c1 \<le> 0xBF"
    and "DecodeRuneInString (EncodeRune r @ rest) = (r, 2)"
proof -
  define q where "q = r div 64"
  define m where "m = r mod 64"
  have m: "0 \<le> m \<and> m \<le> 63"
    unfolding m_def by (rule mod64_range)
  have r: "q * 64 + m = r"
    unfolding q_def m_def by (rule recompose2)
  have q: "2 \<le> q \<and> q \<le> 31"
    using assms r m by linarith
  have e: "EncodeRune r = [char_of (0xC0 + q), char_of (0x80 + m)]"
    using assms by (simp add: EncodeRune_def q_def m_def)
  have b0: "byte (char_of (0xC0 + q)) = 0xC0 + q"
    using q by (intro byte_char_of) linarith+
  have b1: "byte (char_of (0x80 + m)) = 0x80 + m"
    using m by (intro byte_char_of) linarith+
  show "\<exists>c0 c1. EncodeRune r = [c0, c1] \<and> 0xC2 \<le> byte c0 \<and> 0x80 \<le> byte c1 \<and> byte c1 \<le> 0xBF"
    unfolding e using q m b0 b1 by (auto simp del: of_char_of)
  have m0: "(0xC0 + q) mod 32 = q"
    using q by (intro lead2_mod) linarith+
  have m1: "(0x80 + m) mod 64 = m"
    using m by (intro cont_mod) linarith+
  show "DecodeRuneInString (EncodeRune r @ rest) = (r, 2)"
    unfolding e using q m r
    by (simp add: Let_def b0 b1 m0 m1 utf8_size_def accept_lo_def accept_hi_def
        del: of_char_of)
qed

lemma DecodeRuneInString_EncodeRune3:
  assumes "0x800 \<le> r" and "r \<le> 0xFFFF" and "\<not> (0xD800 \<le> r \<and> r \<le> 0xDFFF)"
  shows "\<exists>c0 c1 c2. EncodeRune r = [c0, c1, c2] \<and> 0xC2 \<le> byte c0
           \<and> 0x80 \<le> byte c1 \<and> byte c1 \<le> 0xBF \<and> 0x80 \<le> byte c2 \<and> byte c2 \<le> 0xBF"
    and "DecodeRuneInString (EncodeRune r @ rest) = (r, 3)"
proof -
  define q where "q = r div 4096"
  define m1 where "m1 = r div 64 mod 64"
  define m2 where "m2 = r mod 64"
  have m1: "0 \<le> m1 \<and> m1 \<le> 63"
    unfolding m1_def by (rule mod64_range)
  have m2: "0 \<le> m2 \<and> m2 \<le> 63"
    unfolding m2_def by (rule mod64_range)
  have r: "q * 4096 + m1 * 64 + m2 = r"
    unfolding q_def m1_def m2_def by (rule recompose3)
  have q: "0 \<le> q \<and> q \<le> 15"
    using assms(1,2) r m1 m2 by linarith
  have lo: "q = 0 \<Longrightarrow> 32 \<le> m1"
    using assms(1) r m1 m2 by linarith
  have hi: "q = 13 \<Longrightarrow> m1 \<le> 31"
  proof -
    assume q13: "q = 13"
    with r m1 m2 have "r \<le> 0xDFFF" by linarith
    with assms(3) have "r < 0xD800" by linarith
    with q13 r m1 m2 show "m1 \<le> 31" by linarith
  qed
  have e: "EncodeRune r = [char_of (0xE0 + q), char_of (0x80 + m1), char_of (0x80 + m2)]"
    using assms by (auto simp: EncodeRune_def q_def m1_def m2_def)
  have b0: "byte (char_of (0xE0 + q)) = 0xE0 + q"
    using q by (intro byte_char_of) linarith+
  have b1: "byte (char_of (0x80 + m1)) = 0x80 + m1"
    using m1 by (intro byte_char_of) linarith+
  have b2: "byte (char_of (0x80 + m2)) = 0x80 + m2"
    using m2 by (intro byte_char_of) linarith+
  show "\<exists>c0 c1 c2. EncodeRune r = [c0, c1, c2] \<and> 0xC2 \<le> byte c0
           \<and> 0x80 \<le> byte c1 \<and> byte c1 \<le> 0xBF \<and> 0x80 \<le> byte c2 \<and> byte c2 \<le> 0xBF"
    unfolding e using q m1 m2 b0 b1 b2 by (auto simp del: of_char_of)
  have d0: "(0xE0 + q) mod 16 = q"
    using q by (intro lead3_mod) linarith+
  have d1: "(0x80 + m1) mod 64 = m1"
    using m1 by (intro cont_mod) linarith+
  have d2: "(0x80 + m2) mod 64 = m2"
    using m2 by (intro cont_mod) linarith+
  show "DecodeRuneInString (EncodeRune r @ rest) = (r, 3)"
    unfolding e using q m1 m2 r lo hi
    by (auto simp add: Let_def b0 b1 b2 d0 d1 d2 utf8_size_def accept_lo_def accept_hi_def
        simp del: of_char_of)
qed

lemma DecodeRuneInString_EncodeRune4:
  assumes "0x10000 \<le> r" and "r \<le> 0x10FFFF"
  shows "\<exists>c0 c1 c2 c3. EncodeRune r = [c0, c1, c2, c3] \<and> 0xC2 \<le> byte c0
           \<and> 0x80 \<le> byte c1 \<and> byte c1 \<le> 0xBF \<and> 0x80 \<le> byte c2 \<and> byte c2 \<le> 0xBF
           \<and> 0x80 \<le> byte c3 \<and> byte c3 \<le> 0xBF"
    and "DecodeRuneInString (EncodeRune r @ rest) = (r, 4)"
proof -
  define q where "q = r div 262144"
  define m1 where "m1 = r div 4096 mod 64"
  define m2 where "m2 = r div 64 mod 64"
  define m3 where "m3 = r mod 64"
  have m1: "0 \<le> m1 \<and> m1 \<le> 63"
    unfolding m1_def by (rule mod64_range)
  have m2: "0 \<le> m2 \<and> m2 \<le> 63"
    unfolding m2_def by (rule mod64_range)
  have m3: "0 \<le> m3 \<and> m3 \<le> 63"
    unfolding m3_def by (rule mod64_range)
  have r: "q * 262144 + m1 * 4096 + m2 * 64 + m3 = r"
    unfolding q_def m1_def m2_def m3_def by (rule recompose4)
  have q: "0 \<le> q \<and> q \<le> 4"
    using assms(1,2) r m1 m2 m3 by linarith
  have lo: "q = 0 \<Longrightarrow> 16 \<le> m1"
    using assms(1) r m1 m2 m3 by linarith
  have hi: "q = 4 \<Longrightarrow> m1 \<le> 15"
    using assms(2) r m1 m2 m3 by linarith
  have e: "EncodeRune r = [char_of (0xF0 + q), char_of (0x80 + m1), char_of (0x80 + m2),
      char_of (0x80 + m3)]"
    using assms by (simp add: EncodeRune_def q_def m1_def m2_def m3_def)
  have b0: "byte (char_of (0xF0 + q)) = 0xF0 + q"
    using q by (intro byte_char_of) linarith+
  have b1: "byte (char_of (0x80 + m1)) = 0x80 + m1"
    using m1 by (intro byte_char_of) linarith+
  have b2: "byte (char_of (0x80 + m2)) = 0x80 + m2"
    using m2 by (intro byte_char_of) linarith+
  have b3: "byte (char_of (0x80 + m3)) = 0x80 + m3"
    using m3 by (intro byte_char_of) linarith+
  show "\<exists>c0 c1 c2 c3. EncodeRune r = [c0, c1, c2, c3] \<and> 0xC2 \<le> byte c0
           \<and> 0x80 \<le> byte c1 \<and> byte c1 \<le> 0xBF \<and> 0x80 \<le> byte c2 \<and> byte c2 \<le> 0xBF
           \<and> 0x80 \<le> byte c3 \<and> byte c3 \<le> 0xBF"
    unfolding e using q m1 m2 m3 b0 b1 b2 b3 by (auto simp del: of_char_of)
  have d0: "(0xF0 + q) mod 8 = q"
    using q by (intro lead4_mod) linarith+
  have d1: "(0x80 + m1) mod 64 = m1"
    using m1 by (intro cont_mod) linarith+
  have d2: "(0x80 + m2) mod 64 = m2"
    using m2 by (intro cont_mod) linarith+
  have d3: "(0x80 + m3) mod 64 = m3"
    using m3 by (intro cont_mod) linarith+
  show "DecodeRuneInString (EncodeRune r @ rest) = (r, 4)"
    unfolding e using q m1 m2 m3 r lo hi
    by (auto simp add: Let_def b0 b1 b2 b3 d0 d1 d2 d3 utf8_size_def accept_lo_def
        accept_hi_def simp del: of_char_of)
qed

lemma DecodeRuneInString_EncodeRune:
  assumes "validRune r"
  shows "DecodeRuneInString (EncodeRune r @ rest) = (r, length (EncodeRune r))"
proof -
  consider "0 \<le> r" "r \<le> 0x7F" | "0x80 \<le> r" "r \<le> 0x7FF"
    | "0x800 \<le> r" "r \<le> 0xFFFF" "\<not> (0xD800 \<le> r \<and> r \<le> 0xDFFF)"
    | "0x10000 \<le> r" "r \<le> 0x10FFFF"
    using assms unfolding validRune_def by linarith
  then show ?thesis
  proof cases
    case 1
    then show ?thesis
      using DecodeRuneInString_EncodeRune1 [of r] DecodeRuneInString_EncodeRune1(2) [of r rest] by simp
  next
    case 2
    then show ?thesis
      using DecodeRuneInString_EncodeRune2(1) [of r] DecodeRuneInString_EncodeRune2(2) [of r rest] by auto
  next
    case 3
    then show ?thesis
      using DecodeRuneInString_EncodeRune3(1) [of r] DecodeRuneInString_EncodeRune3(2) [of r rest] by auto
  next
    case 4
    then show ?thesis
      using DecodeRuneInString_EncodeRune4(1) [of r] DecodeRuneInString_EncodeRune4(2) [of r rest] by auto
  qed
qed

lemma lead3_sub: "0xE0 \<le> (b::int) \<Longrightarrow> b < 0xF0 \<Longrightarrow> b mod 16 = b - 0xE0"
  using lead3_mod [of "b - 0xE0"] by simp

lemma lead4_sub: "0xF0 \<le> (b::int) \<Longrightarrow> b \<le> 0xF4 \<Longrightarrow> b mod 8 = b - 0xF0"
  using lead4_mod [of "b - 0xF0"] by simp

lemma lead2_sub: "0xC0 \<le> (b::int) \<Longrightarrow> b < 0xE0 \<Longrightarrow> b mod 32 = b - 0xC0"
  using lead2_mod [of "b - 0xC0"] by simp

lemma cont_sub: "0x80 \<le> (b::int) \<Longrightarrow> b \<le> 0xBF \<Longrightarrow> b mod 64 = b - 0x80"
  using cont_mod [of "b - 0x80"] by simp

lemma DecodeRuneInString_cases:
  assumes "DecodeRuneInString (c # s) = (r, w)" and "\<not> byte c < 0x80"
  shows "(r = RuneError \<and> w = 1)
    \<or> (w = 2 \<and> 0xC2 \<le> byte c \<and> byte c < 0xE0
        \<and> 0x80 \<le> byte (s ! 0) \<and> byte (s ! 0) \<le> 0xBF
        \<and> r = (byte c mod 32) * 64 + byte (s ! 0) mod 64)
    \<or> (w = 3 \<and> 0xE0 \<le> byte c \<and> byte c < 0xF0
        \<and> 0x80 \<le> byte (s ! 0) \<and> byte (s ! 0) \<le> 0xBF
        \<and> (byte c = 0xE0 \<longrightarrow> 0xA0 \<le> byte (s ! 0))
        \<and> (byte c = 0xED \<longrightarrow> byte (s ! 0) \<le> 0x9F)
        \<and> 0x80 \<le> byte (s ! 1) \<and> byte (s ! 1) \<le> 0xBF
        \<and> r = (byte c mod 16) * 4096 + (byte (s ! 0) mod 64) * 64 + byte (s ! 1) mod 64)
    \<or> (w = 4 \<and> 0xF0 \<le> byte c \<and> byte c \<le> 0xF4
        \<and> 0x80 \<le> byte (s ! 0) \<and> byte (s ! 0) \<le> 0xBF
        \<and> (byte c = 0xF0 \<longrightarrow> 0x90 \<le> byte (s ! 0))
        \<and> (byte c = 0xF4 \<longrightarrow> byte (s ! 0) \<le> 0x8F)
        \<and> 0x80 \<le> byte (s ! 1) \<and> byte (s ! 1) \<le> 0xBF
        \<and> 0x80 \<le> byte (s ! 2) \<and> byte (s ! 2) \<le> 0xBF
        \<and> r = (byte c mod 8) * 262144 + (byte (s ! 0) mod 64) * 4096
              + (byte (s ! 1) mod 64) * 64 + byte (s ! 2) mod 64)"
  using assms
  by (simp add: Let_def utf8_size_def accept_lo_def accept_hi_def split: if_splits)

lemma DecodeRuneInString_valid:
  assumes "DecodeRuneInString s = (r, w)"
  shows "validRune r"
proof (cases s)
  case Nil
  with assms show ?thesis
    by (simp add: validRune_def RuneError_def)
next
  case (Cons c s')
  show ?thesis
  proof (cases "byte c < 0x80")
    case True
    with assms Cons byte_range [of c] show ?thesis
      by (simp add: Let_def validRune_def)
  next
    case False
    define s0 where "s0 = byte c"
    define s1 where "s1 = byte (s' ! 0)"
    define s2 where "s2 = byte (s' ! 1)"
    define s3 where "s3 = byte (s' ! 2)"
    from DecodeRuneInString_cases [OF assms [unfolded Cons] False]
    consider "r = RuneError"
      | "0xC2 \<le> s0" "s0 < 0xE0" "0x80 \<le> s1" "s1 \<le> 0xBF"
        "r = (s0 mod 32) * 64 + s1 mod 64"
      | "0xE0 \<le> s0" "s0 < 0xF0" "0x80 \<le> s1" "s1 \<le> 0xBF"
        "s0 = 0xE0 \<longrightarrow> 0xA0 \<le> s1" "s0 = 0xED \<longrightarrow> s1 \<le> 0x9F"
        "0x80 \<le> s2" "s2 \<le> 0xBF"
        "r = (s0 mod 16) * 4096 + (s1 mod 64) * 64 + s2 mod 64"
      | "0xF0 \<le> s0" "s0 \<le> 0xF4" "0x80 \<le> s1" "s1 \<le> 0xBF"
        "s0 = 0xF0 \<longrightarrow> 0x90 \<le> s1" "s0 = 0xF4 \<longrightarrow> s1 \<le> 0x8F"
        "0x80 \<le> s2" "s2 \<le> 0xBF" "0x80 \<le> s3" "s3 \<le> 0xBF"
        "r = (s0 mod 8) * 262144 + (s1 mod 64) * 4096 + (s2 mod 64) * 64 + s3 mod 64"
      unfolding s0_def s1_def s2_def s3_def by blast
    then show ?thesis
    proof cases
      case 1
      then show ?thesis
        by (simp add: validRune_def RuneError_def)
    next
      case 2
      then have "r = (s0 - 0xC0) * 64 + (s1 - 0x80)"
        by (simp add: lead2_sub cont_sub)
      with 2(1-4) show ?thesis
        unfolding validRune_def by auto
    next
      case 3
      note t = 3(1-8)
      from 3 have r: "r = (s0 - 0xE0) * 4096 + (s1 - 0x80) * 64 + (s2 - 0x80)"
        by (simp add: lead3_sub cont_sub)
      consider "s0 = 0xE0" | "0xE0 < s0" "s0 < 0xED" | "s0 = 0xED" | "0xED < s0"
        using t by linarith
      then show ?thesis
      proof cases
        case 1
        with t r show ?thesis
          unfolding validRune_def by simp
      next
        case 2
        with t(1-4,7,8) r show ?thesis
          unfolding validRune_def by auto
      next
        case 3
        with t r show ?thesis
          unfolding validRune_def by simp
      next
        case 4
        with t(1-4,7,8) r show ?thesis
          unfolding validRune_def by auto
      qed
    next
      case 4
      note t = 4(1-10)
      from 4 have r: "r = (s0 - 0xF0) * 262144 + (s1 - 0x80) * 4096 + (s2 - 0x80) * 64
          + (s3 - 0x80)"
        by (simp add: lead4_sub cont_sub)
      consider "s0 = 0xF0" | "0xF0 < s0" "s0 < 0xF4" | "s0 = 0xF4"
        using t by linarith
      then show ?thesis
      proof cases
        case 1
        with t r show ?thesis
          unfolding validRune_def by simp
      next
        case 2
        with t(1-4,7-10) r show ?thesis
          unfolding validRune_def by auto
      next
        case 3
        with t r show ?thesis
          unfolding validRune_def by simp
      qed
    qed
  qed
qed

lemma encodeAll_simps [simp]:
  "encodeAll [] = []"
  "encodeAll (r # rs) = EncodeRune r @ encodeAll rs"
  "encodeAll (rs @ rs') = encodeAll rs @ encodeAll rs'"
  by (simp_all add: encodeAll_def)

lemma EncodeRune_nonempty: "EncodeRune r \<noteq> []"
  by (simp add: EncodeRune_def)

lemma runes_valid: "r \<in> set (runes s) \<Longrightarrow> validRune r"
proof (induction s rule: runes.induct)
  case 1
  then show ?case by simp
next
  case (2 c s)
  obtain r0 w where d: "DecodeRuneInString (c # s) = (r0, w)"
    by (cases "DecodeRuneInString (c # s)")
  show ?case
  proof (cases "r = r0")
    case True
    with d show ?thesis
      using DecodeRuneInString_valid by blast
  next
    case False
    with "2.prems" d have "r \<in> set (runes (drop (w - 1) s))"
      by simp
    with 2 d show ?thesis
      by simp
  qed
qed

lemma runes_EncodeRune:
  assumes "validRune r"
  shows "runes (EncodeRune r @ rest) = r # runes rest"
proof -
  obtain c cs where e: "EncodeRune r = c # cs"
    using EncodeRune_nonempty [of r] by (cases "EncodeRune r") auto
  have "DecodeRuneInString (c # cs @ rest) = (r, Suc (length cs))"
    using DecodeRuneInString_EncodeRune [OF assms, of rest] e by simp
  then show ?thesis
    by (simp add: e)
qed

lemma runes_encodeAll: "list_all validRune rs \<Longrightarrow> runes (encodeAll rs) = rs"
  by (induction rs) (simp_all add: runes_EncodeRune)

lemma strings_Map_runes:
  "strings_Map (\<lambda>r. if controlRune r then - 1 else r) s
   = encodeAll (filter (\<lambda>r. \<not> controlRune r) (runes s))"
proof (induction "\<lambda>r. if controlRune r then - 1 else (r::int)" s rule: strings_Map.induct)
  case 1
  then show ?case by simp
next
  case (2 c s)
  obtain r0 w where d: "DecodeRuneInString (c # s) = (r0, w)"
    by (cases "DecodeRuneInString (c # s)")
  have "\<not> controlRune r0 \<Longrightarrow> 0 \<le> r0"
    by (simp add: controlRune_def)
  with 2 d show ?case
    by (auto simp: controlRune_def)
qed

text \<open>Trimming a well-formed string trims its runes.\<close>

lemma EncodeRune_shape:
  assumes "validRune r"
  shows "(r < 0x80 \<and> EncodeRune r = [char_of r] \<and> byte (char_of r) = r)
    \<or> (0x80 \<le> r \<and> (\<exists>c0 c1. EncodeRune r = [c0, c1] \<and> 0xC2 \<le> byte c0
                        \<and> 0x80 \<le> byte c1 \<and> byte c1 \<le> 0xBF))
    \<or> (0x80 \<le> r \<and> (\<exists>c0 c1 c2. EncodeRune r = [c0, c1, c2] \<and> 0xC2 \<le> byte c0
                        \<and> 0x80 \<le> byte c1 \<and> byte c1 \<le> 0xBF
                        \<and> 0x80 \<le> byte c2 \<and> byte c2 \<le> 0xBF))
    \<or> (0x80 \<le> r \<and> (\<exists>c0 c1 c2 c3. EncodeRune r = [c0, c1, c2, c3] \<and> 0xC2 \<le> byte c0
                        \<and> 0x80 \<le> byte c1 \<and> byte c1 \<le> 0xBF
                        \<and> 0x80 \<le> byte c2 \<and> byte c2 \<le> 0xBF
                        \<and> 0x80 \<le> byte c3 \<and> byte c3 \<le> 0xBF))"
proof -
  consider "0 \<le> r" "r \<le> 0x7F" | "0x80 \<le> r" "r \<le> 0x7FF"
    | "0x800 \<le> r" "r \<le> 0xFFFF" "\<not> (0xD800 \<le> r \<and> r \<le> 0xDFFF)"
    | "0x10000 \<le> r" "r \<le> 0x10FFFF"
    using assms unfolding validRune_def by linarith
  then show ?thesis
  proof cases
    case 1
    then have "byte (char_of r) = r"
      by (intro byte_char_of) linarith+
    with 1 show ?thesis
      using DecodeRuneInString_EncodeRune1(1) [of r] by (simp del: of_char_of)
  next
    case 2
    from DecodeRuneInString_EncodeRune2(1) [OF 2] 2(1) show ?thesis
      by blast
  next
    case 3
    then have "0x80 \<le> r" by linarith
    with DecodeRuneInString_EncodeRune3(1) [OF 3] show ?thesis
      by blast
  next
    case 4
    then have "0x80 \<le> r" by linarith
    with DecodeRuneInString_EncodeRune4(1) [OF 4] show ?thesis
      by blast
  qed
qed

lemma lastRuneStart2:
  "RuneStart (byte c0) \<Longrightarrow> lastRuneStart (xs @ [c0, c1]) = length xs"
  by (simp add: lastRuneStart_def Let_def nth_append)

lemma lastRuneStart3:
  "\<not> RuneStart (byte c1) \<Longrightarrow> RuneStart (byte c0) \<Longrightarrow>
    lastRuneStart (xs @ [c0, c1, c2]) = length xs"
  by (simp add: lastRuneStart_def Let_def nth_append)

lemma lastRuneStart4:
  "\<not> RuneStart (byte c2) \<Longrightarrow> \<not> RuneStart (byte c1) \<Longrightarrow> RuneStart (byte c0) \<Longrightarrow>
    lastRuneStart (xs @ [c0, c1, c2, c3]) = length xs"
  by (simp add: lastRuneStart_def Let_def nth_append)

lemma DecodeLastRuneInString_EncodeRune:
  assumes "validRune r"
  shows "DecodeLastRuneInString (xs @ EncodeRune r) = (r, length (EncodeRune r))"
proof -
  have d: "DecodeRuneInString (EncodeRune r) = (r, length (EncodeRune r))"
    using DecodeRuneInString_EncodeRune [OF assms, of "[]"] by simp
  from EncodeRune_shape [OF assms]
  consider "r < 0x80" "EncodeRune r = [char_of r]" "byte (char_of r) = r"
    | c0 c1 where "EncodeRune r = [c0, c1]" "0xC2 \<le> byte c0" "0x80 \<le> byte c1"
        "byte c1 \<le> 0xBF"
    | c0 c1 c2 where "EncodeRune r = [c0, c1, c2]" "0xC2 \<le> byte c0" "0x80 \<le> byte c1"
        "byte c1 \<le> 0xBF" "0x80 \<le> byte c2" "byte c2 \<le> 0xBF"
    | c0 c1 c2 c3 where "EncodeRune r = [c0, c1, c2, c3]" "0xC2 \<le> byte c0"
        "0x80 \<le> byte c1" "byte c1 \<le> 0xBF" "0x80 \<le> byte c2" "byte c2 \<le> 0xBF"
        "0x80 \<le> byte c3" "byte c3 \<le> 0xBF"
    by blast
  then show ?thesis
  proof cases
    case 1
    then show ?thesis
      by (simp add: DecodeLastRuneInString_def Let_def del: of_char_of)
  next
    case 2
    then have s: "lastRuneStart (xs @ [c0, c1]) = length xs"
      by (intro lastRuneStart2) (simp add: RuneStart_def)
    from 2 d show ?thesis
      by (simp add: DecodeLastRuneInString_def Let_def s nth_append)
  next
    case 3
    then have s: "lastRuneStart (xs @ [c0, c1, c2]) = length xs"
      by (intro lastRuneStart3) (simp_all add: RuneStart_def)
    from 3 d show ?thesis
      by (simp add: DecodeLastRuneInString_def Let_def s nth_append)
  next
    case 4
    then have s: "lastRuneStart (xs @ [c0, c1, c2, c3]) = length xs"
      by (intro lastRuneStart4) (simp_all add: RuneStart_def)
    from 4 d show ?thesis
      by (simp add: DecodeLastRuneInString_def Let_def s nth_append)
  qed
qed

lemma TrimLeftFunc_encodeAll:
  "list_all validRune rs \<Longrightarrow> TrimLeftFunc f (encodeAll rs) = encodeAll (dropWhile f rs)"
proof (induction rs)
  case Nil
  then show ?case by simp
next
  case (Cons r rs)
  then have v: "validRune r" by simp
  obtain c cs where e: "EncodeRune r = c # cs"
    using EncodeRune_nonempty [of r] by (cases "EncodeRune r") auto
  have "DecodeRuneInString (c # cs @ encodeAll rs) = (r, Suc (length cs))"
    using DecodeRuneInString_EncodeRune [OF v, of "encodeAll rs"] e by simp
  with Cons show ?case
    by (simp add: e)
qed

lemma lastIndexFunc_EncodeRune:
  assumes "validRune r"
  shows "lastIndexFunc f (xs @ EncodeRune r)
         = (if \<not> f r then int (length xs) else lastIndexFunc f xs)"
  using EncodeRune_nonempty [of r]
  by (subst lastIndexFunc.simps)
    (simp add: DecodeLastRuneInString_EncodeRune [OF assms])

lemma lastIndexFunc_spaces:
  "list_all validRune suf \<Longrightarrow> list_all f suf \<Longrightarrow>
    lastIndexFunc f (xs @ encodeAll suf) = lastIndexFunc f xs"
proof (induction suf rule: rev_induct)
  case Nil
  then show ?case by simp
next
  case (snoc r suf)
  then have "lastIndexFunc f ((xs @ encodeAll suf) @ EncodeRune r)
      = lastIndexFunc f (xs @ encodeAll suf)"
    by (subst lastIndexFunc_EncodeRune) simp_all
  with snoc show ?case
    by simp
qed

lemma lastIndexFunc_Nil: "lastIndexFunc f [] = - 1"
  by (subst lastIndexFunc.simps) simp

lemma split_trailing:
  "list_all f rs \<or> (\<exists>pre r suf. rs = pre @ r # suf \<and> \<not> f r \<and> list_all f suf)"
proof (induction rs rule: rev_induct)
  case Nil
  then show ?case by simp
next
  case (snoc x xs)
  show ?case
  proof (cases "f x")
    case False
    then have "xs @ [x] = xs @ x # [] \<and> \<not> f x \<and> list_all f []"
      by simp
    then show ?thesis by blast
  next
    case True
    from snoc show ?thesis
    proof
      assume "list_all f xs"
      with True show ?thesis by simp
    next
      assume "\<exists>pre r suf. xs = pre @ r # suf \<and> \<not> f r \<and> list_all f suf"
      then obtain pre r suf where "xs = pre @ r # suf" "\<not> f r" "list_all f suf"
        by blast
      with True have "xs @ [x] = pre @ r # (suf @ [x]) \<and> \<not> f r \<and> list_all f (suf @ [x])"
        by simp
      then show ?thesis by blast
    qed
  qed
qed

lemma rev_dropWhile_rev_all: "list_all f rs \<Longrightarrow> rev (dropWhile f (rev rs)) = []"
  by (simp add: list_all_iff)

lemma rev_dropWhile_rev_split:
  assumes "\<not> f r" and "list_all f suf"
  shows "rev (dropWhile f (rev (pre @ r # suf))) = pre @ [r]"
proof -
  have "dropWhile f (rev suf @ r # rev pre) = dropWhile f (r # rev pre)"
    using assms(2) by (intro dropWhile_append2) (simp add: list_all_iff)
  with assms(1) show ?thesis
    by simp
qed

lemma TrimRightFunc_encodeAll:
  assumes "list_all validRune rs"
  shows "TrimRightFunc f (encodeAll rs) = encodeAll (rev (dropWhile f (rev rs)))"
proof -
  from split_trailing [of f rs] show ?thesis
  proof
    assume a: "list_all f rs"
    then have "lastIndexFunc f (encodeAll rs) = - 1"
      using lastIndexFunc_spaces [OF assms a, of "[]"] by (simp add: lastIndexFunc_Nil)
    with a show ?thesis
      by (simp add: TrimRightFunc_def rev_dropWhile_rev_all)
  next
    assume "\<exists>pre r suf. rs = pre @ r # suf \<and> \<not> f r \<and> list_all f suf"
    then obtain pre r suf where rs: "rs = pre @ r # suf" and r: "\<not> f r"
      and suf: "list_all f suf"
      by blast
    from assms rs have v: "validRune r" and vs: "list_all validRune suf"
      by simp_all
    have "lastIndexFunc f (encodeAll rs)
        = lastIndexFunc f ((encodeAll pre @ EncodeRune r) @ encodeAll suf)"
      by (simp add: rs)
    also have "\<dots> = lastIndexFunc f (encodeAll pre @ EncodeRune r)"
      using vs suf by (rule lastIndexFunc_spaces)
    also have "\<dots> = int (length (encodeAll pre))"
      using r by (simp add: lastIndexFunc_EncodeRune [OF v])
    finally have i: "lastIndexFunc f (encodeAll rs) = int (length (encodeAll pre))" .
    obtain c cs where e: "EncodeRune r = c # cs"
      using EncodeRune_nonempty [of r] by (cases "EncodeRune r") auto
    have at: "encodeAll rs ! length (encodeAll pre) = c"
      by (simp add: rs e nth_append)
    have dr: "drop (length (encodeAll pre)) (encodeAll rs) = EncodeRune r @ encodeAll suf"
      by (simp add: rs)
    have w: "snd (DecodeRuneInString (EncodeRune r @ encodeAll suf)) = length (EncodeRune r)"
      by (simp add: DecodeRuneInString_EncodeRune [OF v])
    have single: "\<not> 0x80 \<le> byte c \<Longrightarrow> cs = []"
      using EncodeRune_shape [OF v] e by auto
    have "TrimRightFunc f (encodeAll rs) = encodeAll pre @ EncodeRune r"
    proof (cases "0x80 \<le> byte c")
      case True
      then show ?thesis
        by (simp add: TrimRightFunc_def i at dr w) (simp add: rs)
    next
      case False
      with single have "cs = []" by simp
      have n: "nat (int (length (encodeAll pre)) + 1) = Suc (length (encodeAll pre))"
        by simp
      have "TrimRightFunc f (encodeAll rs)
          = take (nat (int (length (encodeAll pre)) + 1)) (encodeAll rs)"
        using False by (simp add: TrimRightFunc_def i at)
      also have "\<dots> = take (Suc (length (encodeAll pre))) (encodeAll rs)"
        unfolding n ..
      also have "\<dots> = encodeAll pre @ EncodeRune r"
        using \<open>cs = []\<close> by (simp add: rs e)
      finally show ?thesis .
    qed
    then show ?thesis
      unfolding rs rev_dropWhile_rev_split [OF r suf] by simp
  qed
qed

lemma asciiSpaceRune_IsSpace: "asciiSpaceRune r \<Longrightarrow> unicode_IsSpace r"
  by (auto simp: asciiSpaceRune_def unicode_IsSpace_def)

lemma IsSpace_asciiSpaceRune: "r < 0x80 \<Longrightarrow> unicode_IsSpace r \<Longrightarrow> asciiSpaceRune r"
  by (auto simp: asciiSpaceRune_def unicode_IsSpace_def)

lemma dropWhile_weaker:
  "(\<And>x. P x \<Longrightarrow> Q x) \<Longrightarrow> dropWhile Q (dropWhile P xs) = dropWhile Q xs"
  by (induction xs) auto

lemma list_all_dropWhile: "list_all P xs \<Longrightarrow> list_all P (dropWhile Q xs)"
  by (induction xs) auto

lemma list_all_rev_dropWhile_rev: "list_all P xs \<Longrightarrow> list_all P (rev (dropWhile Q (rev xs)))"
  using list_all_dropWhile [of P "rev xs" Q] by (simp add: list_all_iff)

lemma EncodeRune_head:
  assumes "validRune r"
  shows "\<exists>c cs. EncodeRune r = c # cs
           \<and> (r < 0x80 \<longrightarrow> cs = [] \<and> byte c = r) \<and> (0x80 \<le> r \<longrightarrow> 0xC2 \<le> byte c)"
  using EncodeRune_shape [OF assms] by (auto simp del: of_char_of)

lemma EncodeRune_last:
  assumes "validRune r"
  shows "(r < 0x80 \<longrightarrow> EncodeRune r = [last (EncodeRune r)] \<and> byte (last (EncodeRune r)) = r)
         \<and> (0x80 \<le> r \<longrightarrow> 0x80 \<le> byte (last (EncodeRune r)))"
  using EncodeRune_shape [OF assms] by (auto simp del: of_char_of)

lemma asciiSpace_byte: "asciiSpace c = asciiSpaceRune (byte c)"
  by (simp add: asciiSpace_def asciiSpaceRune_def)

lemma dropWhile_asciiSpace_encodeAll:
  "list_all validRune rs \<Longrightarrow>
    dropWhile asciiSpace (encodeAll rs) = encodeAll (dropWhile asciiSpaceRune rs)"
proof (induction rs)
  case Nil
  then show ?case by simp
next
  case (Cons r rs)
  then have v: "validRune r" by simp
  from EncodeRune_head [OF v] obtain c cs where e: "EncodeRune r = c # cs"
    and lo: "r < 0x80 \<longrightarrow> cs = [] \<and> byte c = r" and hi: "0x80 \<le> r \<longrightarrow> 0xC2 \<le> byte c"
    by blast
  show ?case
  proof (cases "r < 0x80")
    case True
    with lo have "cs = []" "byte c = r" by simp_all
    with Cons show ?thesis
      by (simp add: e asciiSpace_byte)
  next
    case False
    with hi have "0xC2 \<le> byte c" by simp
    with False have "\<not> asciiSpace c" "\<not> asciiSpaceRune r"
      by (auto simp: asciiSpace_def asciiSpaceRune_def)
    then show ?thesis
      by (simp add: e)
  qed
qed

lemma rev_dropWhile_asciiSpace_encodeAll:
  "list_all validRune rs \<Longrightarrow>
    rev (dropWhile asciiSpace (rev (encodeAll rs)))
    = encodeAll (rev (dropWhile asciiSpaceRune (rev rs)))"
proof (induction rs rule: rev_induct)
  case Nil
  then show ?case by simp
next
  case (snoc r rs)
  then have v: "validRune r" and vs: "list_all validRune rs"
    by simp_all
  obtain c cs where e: "rev (EncodeRune r) = c # cs"
    using EncodeRune_nonempty [of r] by (cases "rev (EncodeRune r)") auto
  then have l: "last (EncodeRune r) = c"
    by (metis last_rev list.sel(1) rev_rev_ident)
  show ?case
  proof (cases "r < 0x80")
    case True
    with EncodeRune_last [OF v] l have "EncodeRune r = [c]" "byte c = r"
      by simp_all
    with snoc.IH [OF vs] show ?thesis
      by (simp add: asciiSpace_byte)
  next
    case False
    with EncodeRune_last [OF v] l have "0x80 \<le> byte c"
      by simp
    with False have "\<not> asciiSpace c" "\<not> asciiSpaceRune r"
      by (auto simp: asciiSpace_def asciiSpaceRune_def)
    then show ?thesis
      by (simp add: e) (metis e rev_rev_ident rev.simps(2))
  qed
qed

lemma hd_encodeAll:
  assumes "validRune r"
  shows "\<exists>c cs. encodeAll (r # rs) = c # cs \<and> (0x80 \<le> byte c \<longleftrightarrow> 0x80 \<le> r)"
proof -
  from EncodeRune_head [OF assms] obtain c cs where e: "EncodeRune r = c # cs"
    and lo: "r < 0x80 \<longrightarrow> cs = [] \<and> byte c = r" and hi: "0x80 \<le> r \<longrightarrow> 0xC2 \<le> byte c"
    by blast
  have "0x80 \<le> byte c \<longleftrightarrow> 0x80 \<le> r"
    using lo hi by (cases "r < 0x80") auto
  with e show ?thesis
    by simp
qed

lemma last_encodeAll:
  assumes "validRune r"
  shows "0x80 \<le> byte (last (encodeAll (rs @ [r]))) \<longleftrightarrow> 0x80 \<le> r"
proof -
  have "last (encodeAll (rs @ [r])) = last (EncodeRune r)"
    using EncodeRune_nonempty [of r] by simp
  with EncodeRune_last [OF assms] show ?thesis
    by (cases "r < 0x80") auto
qed

lemma strings_TrimSpace_encodeAll:
  assumes "list_all validRune rs"
  shows "strings_TrimSpace (encodeAll rs) = encodeAll (trimRunes rs)"
proof -
  define rs1 where "rs1 = dropWhile asciiSpaceRune rs"
  have v1: "list_all validRune rs1"
    unfolding rs1_def using assms by (rule list_all_dropWhile)
  have d1: "dropWhile asciiSpace (encodeAll rs) = encodeAll rs1"
    unfolding rs1_def using assms by (rule dropWhile_asciiSpace_encodeAll)
  have lw: "dropWhile unicode_IsSpace rs1 = dropWhile unicode_IsSpace rs"
    unfolding rs1_def by (rule dropWhile_weaker) (rule asciiSpaceRune_IsSpace)
  show ?thesis
  proof (cases rs1)
    case Nil
    have "strings_TrimSpace (encodeAll rs) = []"
      unfolding strings_TrimSpace_def d1 Nil by simp
    moreover have "trimRunes rs = []"
      unfolding trimRunes_def lw [symmetric] Nil by simp
    ultimately show ?thesis
      by simp
  next
    case (Cons r1 rs')
    with v1 have vr1: "validRune r1" by simp
    from hd_encodeAll [OF vr1, of rs'] obtain c cs where
      e: "encodeAll rs1 = c # cs" and hc: "0x80 \<le> byte c \<longleftrightarrow> 0x80 \<le> r1"
      unfolding Cons by blast
    show ?thesis
    proof (cases "0x80 \<le> byte c")
      case True
      have "strings_TrimSpace (encodeAll rs) = TrimFunc unicode_IsSpace (encodeAll rs1)"
        using True by (simp add: strings_TrimSpace_def d1 e)
      also have "\<dots> = TrimRightFunc unicode_IsSpace (encodeAll (dropWhile unicode_IsSpace rs1))"
        by (simp add: TrimFunc_def TrimLeftFunc_encodeAll [OF v1])
      also have "\<dots> = encodeAll (rev (dropWhile unicode_IsSpace
          (rev (dropWhile unicode_IsSpace rs1))))"
        by (intro TrimRightFunc_encodeAll list_all_dropWhile v1)
      finally show ?thesis
        by (simp add: trimRunes_def lw)
    next
      case False
      with hc have a1: "r1 < 0x80" by simp
      have n1: "\<not> asciiSpaceRune r1"
        using hd_dropWhile [of asciiSpaceRune rs] Cons unfolding rs1_def by auto
      with a1 have s1: "\<not> unicode_IsSpace r1"
        using IsSpace_asciiSpaceRune by blast
      with Cons lw have k: "dropWhile unicode_IsSpace rs = rs1"
        by simp
      define rs2 where "rs2 = rev (dropWhile asciiSpaceRune (rev rs1))"
      have v2: "list_all validRune rs2"
        unfolding rs2_def using v1 by (rule list_all_rev_dropWhile_rev)
      have t: "rev (dropWhile asciiSpace (rev (c # cs))) = encodeAll rs2"
        unfolding rs2_def e [symmetric] using v1 by (rule rev_dropWhile_asciiSpace_encodeAll)
      have r2: "rev rs2 = dropWhile asciiSpaceRune (rev rs1)"
        by (simp add: rs2_def)
      have w2: "dropWhile unicode_IsSpace (rev rs2) = dropWhile unicode_IsSpace (rev rs1)"
        unfolding r2 by (rule dropWhile_weaker) (rule asciiSpaceRune_IsSpace)
      have ne: "rev rs2 \<noteq> []"
        unfolding r2 using n1 Cons by (auto simp: dropWhile_eq_Nil_conv)
      then obtain rl rest where rl: "rev rs2 = rl # rest"
        by (cases "rev rs2") auto
      then have rs2: "rs2 = rev rest @ [rl]"
        by (metis rev.simps(2) rev_rev_ident)
      have nl: "\<not> asciiSpaceRune rl"
        using hd_dropWhile [of asciiSpaceRune "rev rs1"] ne rl unfolding r2 by auto
      from v2 rs2 have vl: "validRune rl"
        by simp
      have goal: "(if 0x80 \<le> byte (last (encodeAll rs2))
                  then TrimRightFunc unicode_IsSpace (encodeAll rs2) else encodeAll rs2)
                 = encodeAll (rev (dropWhile unicode_IsSpace (rev rs2)))"
      proof (cases "0x80 \<le> byte (last (encodeAll rs2))")
        case True
        then show ?thesis
          by (simp add: TrimRightFunc_encodeAll [OF v2])
      next
        case False
        then have "rl < 0x80"
          using last_encodeAll [OF vl, of "rev rest"] unfolding rs2 by simp
        with nl have "\<not> unicode_IsSpace rl"
          using IsSpace_asciiSpaceRune by blast
        then have "dropWhile unicode_IsSpace (rev rs2) = rev rs2"
          by (simp add: rl)
        with False show ?thesis
          by simp
      qed
      have "strings_TrimSpace (encodeAll rs)
          = (if 0x80 \<le> byte (last (encodeAll rs2))
             then TrimRightFunc unicode_IsSpace (encodeAll rs2) else encodeAll rs2)"
        using False by (simp add: strings_TrimSpace_def d1 e Let_def t del: dropWhile.simps rev.simps)
      also note goal
      finally show ?thesis
        by (simp add: trimRunes_def k w2)
    qed
  qed
qed

lemma rev_dropWhile_rev_prefix: "\<exists>ws. ys = rev (dropWhile P (rev ys)) @ ws"
proof -
  have "rev ys = takeWhile P (rev ys) @ dropWhile P (rev ys)"
    by simp
  then have "ys = rev (dropWhile P (rev ys)) @ rev (takeWhile P (rev ys))"
    by (metis rev_append rev_rev_ident)
  then show ?thesis ..
qed

lemma trimRunes_idem: "trimRunes (trimRunes xs) = trimRunes xs"
proof -
  define ys where "ys = dropWhile unicode_IsSpace xs"
  define zs where "zs = rev (dropWhile unicode_IsSpace (rev ys))"
  have t: "trimRunes xs = zs"
    by (simp add: trimRunes_def ys_def zs_def)
  have at_end: "rev (dropWhile unicode_IsSpace (rev zs)) = zs"
    by (simp add: zs_def)
  have at_front: "dropWhile unicode_IsSpace zs = zs"
  proof (cases zs)
    case Nil
    then show ?thesis by simp
  next
    case (Cons z zs')
    from rev_dropWhile_rev_prefix [of ys unicode_IsSpace] obtain ws where "ys = zs @ ws"
      unfolding zs_def by blast
    with Cons have "ys \<noteq> []" "hd ys = z"
      by simp_all
    then have "\<not> unicode_IsSpace z"
      using hd_dropWhile [of unicode_IsSpace xs] unfolding ys_def by auto
    with Cons show ?thesis by simp
  qed
  show ?thesis
    unfolding t by (simp add: trimRunes_def at_front at_end)
qed

lemma set_trimRunes: "set (trimRunes xs) \<subseteq> set xs"
proof -
  have "set (trimRunes xs) \<subseteq> set (dropWhile unicode_IsSpace xs)"
    unfolding trimRunes_def
    using set_dropWhileD [of _ unicode_IsSpace "rev (dropWhile unicode_IsSpace xs)"] by auto
  also have "\<dots> \<subseteq> set xs"
    using set_dropWhileD [of _ unicode_IsSpace xs] by auto
  finally show ?thesis .
qed

text \<open>
  Claim C2. When the size limit is at least the byte length of the value,
  \<open>SanitizeHeaderValue\<close> succeeds, and its result holds no code point below \<open>0x20\<close> and
  no code point \<open>0x7F\<close>; in particular it holds neither a carriage return nor a line feed.
\<close>

theorem SanitizeHeaderValue_no_control:
  assumes "int (length s) \<le> maxSize"
  shows "\<exists>res. SanitizeHeaderValue s maxSize = Inr res
           \<and> (\<forall>r \<in> set (runes res). \<not> r < 0x20 \<and> r \<noteq> 0x7F)
           \<and> CHR 0x0D \<notin> set res \<and> CHR 0x0A \<notin> set res"
proof -
  define res where "res = strings_TrimSpace (strings_Map (\<lambda>r. if controlRune r then - 1 else r) s)"
  have ok: "SanitizeHeaderValue s maxSize = Inr res"
    using assms by (simp add: SanitizeHeaderValue_def res_def)
  have bytes: "\<not> controlByte c" if "c \<in> set res" for c
    using that set_strings_TrimSpace strings_Map_no_control unfolding res_def by blast
  have "\<not> r < 0x20 \<and> r \<noteq> 0x7F" if r: "r \<in> set (runes res)" for r
  proof (rule ccontr)
    assume "\<not> (\<not> r < 0x20 \<and> r \<noteq> 0x7F)"
    then have ctl: "r < 0x20 \<or> r = 0x7F" by blast
    then have "r < 0x80" by linarith
    with r obtain c where c: "c \<in> set res" "byte c = r"
      using runes_ascii by blast
    with ctl have "controlByte c" by (simp add: controlByte_def)
    with bytes c show False by blast
  qed
  moreover have "CHR 0x0D \<notin> set res"
    using bytes [of "CHR 0x0D"] by (auto simp: controlByte_def)
  moreover have "CHR 0x0A \<notin> set res"
    using bytes [of "CHR 0x0A"] by (auto simp: controlByte_def)
  ultimately show ?thesis
    using ok by blast
qed

theorem SanitizeHeaderValue_no_control_witness:
  "int (length (''value'' @ [CHR 0x0D, CHR 0x0A] @ ''X-Evil: injected'')) \<le> 1000
   \<and> SanitizeHeaderValue (''value'' @ [CHR 0x0D, CHR 0x0A] @ ''X-Evil: injected'') 1000
       = Inr ''valueX-Evil: injected''
   \<and> list_all (\<lambda>r. \<not> r < 0x20 \<and> r \<noteq> 0x7F) (runes ''valueX-Evil: injected'')
   \<and> CHR 0x0D \<notin> set ''valueX-Evil: injected'' \<and> CHR 0x0A \<notin> set ''valueX-Evil: injected''"
proof -
  have h: "int (length (''value'' @ [CHR 0x0D, CHR 0x0A] @ ''X-Evil: injected'')) \<le> 1000"
    by simp
  have e: "SanitizeHeaderValue (''value'' @ [CHR 0x0D, CHR 0x0A] @ ''X-Evil: injected'') 1000
      = Inr ''valueX-Evil: injected''"
    by code_simp
  from SanitizeHeaderValue_no_control [OF h] e
  have "(\<forall>r \<in> set (runes ''valueX-Evil: injected''). \<not> r < 0x20 \<and> r \<noteq> 0x7F)
      \<and> CHR 0x0D \<notin> set ''valueX-Evil: injected'' \<and> CHR 0x0A \<notin> set ''valueX-Evil: injected''"
    by simp
  with h e show ?thesis
    by (simp only: list_all_iff) simp
qed

text \<open>
  What \<open>SanitizeHeaderValue\<close> returns, in runes: the runes of the value that are not
  control characters, without the white space at either end.
\<close>

lemma SanitizeHeaderValue_runes:
  assumes "SanitizeHeaderValue s maxSize = Inr r"
  shows "r = encodeAll (trimRunes (filter (\<lambda>r. \<not> controlRune r) (runes s)))"
proof -
  have v: "list_all validRune (filter (\<lambda>r. \<not> controlRune r) (runes s))"
    using runes_valid by (auto simp: list_all_iff)
  from assms have "r = strings_TrimSpace (strings_Map (\<lambda>r. if controlRune r then - 1 else r) s)"
    by (simp add: SanitizeHeaderValue_def split: if_splits)
  then show ?thesis
    by (simp add: strings_Map_runes strings_TrimSpace_encodeAll [OF v])
qed

text \<open>
  Claim C7, as stated, fails. A byte that is not well-formed UTF-8 is written back by
  \<open>strings.Map\<close> as the three bytes of \<open>RuneError\<close>, so the result can be longer than the
  value, and the size limit that let the value pass can reject the result.
\<close>

theorem SanitizeHeaderValue_idempotent_counterexample:
  "int (length [CHR 0xFF]) \<le> 1
   \<and> SanitizeHeaderValue [CHR 0xFF] 1 = Inr [CHR 0xEF, CHR 0xBF, CHR 0xBD]
   \<and> SanitizeHeaderValue [CHR 0xEF, CHR 0xBF, CHR 0xBD] 1 = Inl (SizeExceeded 1)"
  by code_simp

text \<open>
  Claim C7, amended. When \<open>SanitizeHeaderValue\<close> returns \<open>r\<close> for a value and \<open>r\<close> is
  itself within the size limit of the second call, sanitizing \<open>r\<close> returns \<open>r\<close> unchanged.
\<close>

theorem SanitizeHeaderValue_idempotent:
  assumes "SanitizeHeaderValue s maxSize = Inr r" and "int (length r) \<le> maxSize'"
  shows "SanitizeHeaderValue r maxSize' = Inr r"
proof -
  define keep where "keep = trimRunes (filter (\<lambda>r. \<not> controlRune r) (runes s))"
  have r: "r = encodeAll keep"
    unfolding keep_def using assms(1) by (rule SanitizeHeaderValue_runes)
  have sub: "set keep \<subseteq> set (filter (\<lambda>r. \<not> controlRune r) (runes s))"
    unfolding keep_def by (rule set_trimRunes)
  have v: "list_all validRune keep"
    using sub runes_valid by (auto simp: list_all_iff)
  have c: "filter (\<lambda>r. \<not> controlRune r) keep = keep"
    using sub by (auto simp: filter_id_conv)
  have "strings_Map (\<lambda>r. if controlRune r then - 1 else r) r = r"
    by (simp add: strings_Map_runes r runes_encodeAll [OF v] c)
  moreover have "strings_TrimSpace r = r"
    unfolding r keep_def
    using v by (simp add: strings_TrimSpace_encodeAll keep_def trimRunes_idem)
  ultimately show ?thesis
    using assms(2) by (simp add: SanitizeHeaderValue_def)
qed

theorem SanitizeHeaderValue_idempotent_witness:
  "SanitizeHeaderValue [CHR 0x20, CHR 0xFF, CHR 0x0A, CHR ''a'', CHR 0xC2, CHR 0xA0] 8
     = Inr [CHR 0xEF, CHR 0xBF, CHR 0xBD, CHR ''a'']
   \<and> int (length [CHR 0xEF, CHR 0xBF, CHR 0xBD, CHR ''a'']) \<le> 8
   \<and> SanitizeHeaderValue [CHR 0xEF, CHR 0xBF, CHR 0xBD, CHR ''a''] 8
     = Inr [CHR 0xEF, CHR 0xBF, CHR 0xBD, CHR ''a'']"
proof -
  have a: "SanitizeHeaderValue [CHR 0x20, CHR 0xFF, CHR 0x0A, CHR ''a'', CHR 0xC2, CHR 0xA0] 8
      = Inr [CHR 0xEF, CHR 0xBF, CHR 0xBD, CHR ''a'']"
    by code_simp
  have b: "int (length [CHR 0xEF, CHR 0xBF, CHR 0xBD, CHR ''a'']) \<le> 8"
    by simp
  from a b SanitizeHeaderValue_idempotent [OF a b] show ?thesis
    by (intro conjI)
qed

subsection \<open>Path resolution\<close>

text \<open>
  Claim C4. When the path has more dot-separated segments than \<open>maxDepth\<close>,
  \<open>ExtractClaim\<close> fails with the depth error whatever the document holds: the result is
  fixed before the document is read. For every positive \<open>maxDepth\<close> there is a document
  in which a path of exactly \<open>maxDepth\<close> segments is found.
\<close>

lemma strings_Split_nested_path:
  "strings_Split (nested_path n) (CHR ''.'') = replicate (Suc n) ''a''"
  by (induction n) simp_all

lemma navigate_nested_doc:
  "navigate (nested_doc n) p (replicate (Suc n) ''a'') = Inr JNull"
  by (induction n) simp_all

theorem ExtractClaim_depth_boundary:
  assumes "0 < maxDepth"
  shows "(\<forall>data path. maxDepth < int (length (strings_Split path (CHR ''.''))) \<longrightarrow>
            ExtractClaim data path maxDepth = Inl (DepthExceeded maxDepth))
         \<and> (\<exists>data path v. int (length (strings_Split path (CHR ''.''))) = maxDepth
               \<and> ExtractClaim data path maxDepth = Inr v)"
proof
  show "\<forall>data path. maxDepth < int (length (strings_Split path (CHR ''.''))) \<longrightarrow>
          ExtractClaim data path maxDepth = Inl (DepthExceeded maxDepth)"
    by (simp add: ExtractClaim_def)
next
  from assms have "maxDepth = int (Suc (nat maxDepth - 1))"
    by simp
  then obtain n where n: "maxDepth = int (Suc n)" ..
  have "int (length (strings_Split (nested_path n) (CHR ''.''))) = maxDepth"
    by (simp add: strings_Split_nested_path n)
  moreover have "ExtractClaim (nested_doc n) (nested_path n) maxDepth = Inr JNull"
    by (simp add: ExtractClaim_def strings_Split_nested_path navigate_nested_doc n
        del: replicate_Suc replicate.simps)
  ultimately show "\<exists>data path v. int (length (strings_Split path (CHR ''.''))) = maxDepth
      \<and> ExtractClaim data path maxDepth = Inr v"
    by blast
qed

theorem ExtractClaim_depth_boundary_witness:
  "(0::int) < 2
   \<and> (2::int) < int (length (strings_Split ''a.b.c'' (CHR ''.'')))
   \<and> ExtractClaim [(''a'', JObject [(''b'', JObject [(''c'', JString ''x'' :: unit json)])])]
         ''a.b.c'' 2 = Inl (DepthExceeded 2)
   \<and> (\<exists>(data :: unit object) path v.
         int (length (strings_Split path (CHR ''.''))) = 2 \<and> ExtractClaim data path 2 = Inr v)"
proof -
  have l: "(2::int) < int (length (strings_Split ''a.b.c'' (CHR ''.'')))"
    by simp
  have t: "(\<forall>(data :: unit object) path.
              2 < int (length (strings_Split path (CHR ''.''))) \<longrightarrow>
              ExtractClaim data path 2 = Inl (DepthExceeded 2))
           \<and> (\<exists>(data :: unit object) path v.
                 int (length (strings_Split path (CHR ''.''))) = 2
                 \<and> ExtractClaim data path 2 = Inr v)"
    by (rule ExtractClaim_depth_boundary) simp
  from t l have d: "ExtractClaim
      [(''a'', JObject [(''b'', JObject [(''c'', JString ''x'' :: unit json)])])] ''a.b.c'' 2
      = Inl (DepthExceeded 2)"
    by blast
  from t have ex: "\<exists>(data :: unit object) path v.
      int (length (strings_Split path (CHR ''.''))) = 2 \<and> ExtractClaim data path 2 = Inr v"
    by (rule conjunct2)
  have z: "(0::int) < 2"
    by simp
  from z l d ex show ?thesis
    by (intro conjI)
qed

text \<open>
  Claim C5, as stated, fails: the empty path is one segment, the empty string, so a
  document that has the empty string among its keys answers it with that key's value.
\<close>

theorem ExtractClaim_empty_path_counterexample:
  "ExtractClaim [('''', JString ''x'' :: unit json)] '''' 1 = Inr (JString ''x'')"
  by (simp add: ExtractClaim_def)

text \<open>
  Claim C5, amended. For \<open>maxDepth \<ge> 1\<close> and a document with no top-level key equal to
  the empty string, resolving the empty path fails with the not-found error that names
  the path.
\<close>

theorem ExtractClaim_empty_path:
  assumes "1 \<le> maxDepth" and "map_of data '''' = None"
  shows "ExtractClaim data '''' maxDepth = Inl (ClaimNotFound '''')"
  using assms by (simp add: ExtractClaim_def)

theorem ExtractClaim_empty_path_witness:
  "(1::int) \<le> 10
   \<and> map_of [(''sub'', JString ''1234567890'' :: unit json)] '''' = None
   \<and> ExtractClaim [(''sub'', JString ''1234567890'' :: unit json)] '''' 10
       = Inl (ClaimNotFound '''')"
proof -
  have m: "map_of [(''sub'', JString ''1234567890'' :: unit json)] '''' = None"
    by simp
  show ?thesis
    using m ExtractClaim_empty_path [of 10, OF _ m] by simp
qed

subsection \<open>Token decoding\<close>

lemma strings_Split_no_sep: "sep \<notin> set s \<Longrightarrow> strings_Split s sep = [s]"
  by (induction s) auto

lemma strings_Split_append:
  "sep \<notin> set a \<Longrightarrow> strings_Split (a @ sep # rest) sep = a # strings_Split rest sep"
  by (induction a) auto

lemma decodeMap_encodeChar:
  assumes "0 \<le> v \<and> v < 64"
  shows "decodeMap (encodeChar v) = Some v"
proof -
  consider "v < 26" | "26 \<le> v" "v < 52" | "52 \<le> v" "v < 62" | "v = 62" | "v = 63"
    using assms by linarith
  then show ?thesis
  proof cases
    case 1
    with assms show ?thesis by (simp add: decodeMap_def encodeChar_def)
  next
    case 2
    with assms show ?thesis by (simp add: decodeMap_def encodeChar_def)
  next
    case 3
    with assms show ?thesis by (simp add: decodeMap_def encodeChar_def)
  next
    case 4
    then show ?thesis by (simp add: decodeMap_def encodeChar_def)
  next
    case 5
    then show ?thesis by (simp add: decodeMap_def encodeChar_def)
  qed
qed

lemma encodeChar_not_dot:
  assumes "0 \<le> v \<and> v < 64"
  shows "encodeChar v \<noteq> CHR ''.''"
proof
  assume "encodeChar v = CHR ''.''"
  then have "decodeMap (encodeChar v) = decodeMap (CHR ''.'')"
    by simp
  with assms show False
    by (simp add: decodeMap_encodeChar) (simp add: decodeMap_def)
qed

lemma byte_div16: "0 \<le> (b::int) \<Longrightarrow> b < 256 \<Longrightarrow> 0 \<le> b div 16 \<and> b div 16 < 16"
  by presburger

lemma byte_div64: "0 \<le> (b::int) \<Longrightarrow> b < 256 \<Longrightarrow> 0 \<le> b div 64 \<and> b div 64 < 4"
  by presburger

lemma byte_div4: "0 \<le> (b::int) \<Longrightarrow> b < 256 \<Longrightarrow> 0 \<le> b div 4 \<and> b div 4 < 64"
  by presburger

lemma mod_bounds: "0 \<le> (b::int) mod 4 \<and> b mod 4 < 4" "0 \<le> (b::int) mod 16 \<and> b mod 16 < 16"
  "0 \<le> (b::int) mod 64 \<and> b mod 64 < 64"
  by simp_all

lemma quantum_bytes:
  assumes "0 \<le> (a::int)" "a < 256" "0 \<le> (b::int)" "b < 256" "0 \<le> (c::int)" "c < 256"
  shows "(a div 4) * 4 + ((a mod 4) * 16 + b div 16) div 16 = a"
    and "(((a mod 4) * 16 + b div 16) mod 16) * 16 + ((b mod 16) * 4 + c div 64) div 4 = b"
    and "(((b mod 16) * 4 + c div 64) mod 4) * 64 + c mod 64 = c"
    and "(((a mod 4) * 16 + b div 16) mod 16) * 16 + ((b mod 16) * 4) div 4 = b"
    and "(a div 4) * 4 + ((a mod 4) * 16) div 16 = a"
  using byte_div16 [OF assms(3,4)] byte_div64 [OF assms(5,6)]
  by (simp_all add: pack_div pack_mod)

lemma sextet_bounds:
  assumes "0 \<le> (a::int)" "a < 256" "0 \<le> (b::int)" "b < 256"
  shows "0 \<le> a div 4 \<and> a div 4 < 64"
    and "0 \<le> (a mod 4) * 16 + b div 16 \<and> (a mod 4) * 16 + b div 16 < 64"
    and "0 \<le> (a mod 16) * 4 + b div 64 \<and> (a mod 16) * 4 + b div 64 < 64"
    and "0 \<le> a mod 64 \<and> a mod 64 < 64"
    and "0 \<le> (a mod 4) * 16 \<and> (a mod 4) * 16 < 64"
    and "0 \<le> (a mod 16) * 4 \<and> (a mod 16) * 4 < 64"
proof -
  define a4 where "a4 = a mod 4"
  define a16 where "a16 = a mod 16"
  define b16 where "b16 = b div 16"
  define b64 where "b64 = b div 64"
  have f: "0 \<le> a4 \<and> a4 < 4" "0 \<le> a16 \<and> a16 < 16" "0 \<le> b16 \<and> b16 < 16" "0 \<le> b64 \<and> b64 < 4"
    using byte_div16 [OF assms(3,4)] byte_div64 [OF assms(3,4)]
    by (simp_all add: a4_def a16_def b16_def b64_def)
  show "0 \<le> a div 4 \<and> a div 4 < 64"
    using assms(1,2) by (rule byte_div4)
  show "0 \<le> a mod 64 \<and> a mod 64 < 64"
    by simp
  from f show "0 \<le> (a mod 4) * 16 + b div 16 \<and> (a mod 4) * 16 + b div 16 < 64"
    unfolding a4_def [symmetric] b16_def [symmetric] by linarith
  from f show "0 \<le> (a mod 16) * 4 + b div 64 \<and> (a mod 16) * 4 + b div 64 < 64"
    unfolding a16_def [symmetric] b64_def [symmetric] by linarith
  from f show "0 \<le> (a mod 4) * 16 \<and> (a mod 4) * 16 < 64"
    unfolding a4_def [symmetric] by linarith
  from f show "0 \<le> (a mod 16) * 4 \<and> (a mod 16) * 4 < 64"
    unfolding a16_def [symmetric] by linarith
qed


lemma base64_round_trip_aux:
  "\<exists>vs. sextets (base64_EncodeToString bs) = Some vs \<and> decodeQuanta vs = Some bs"
proof (induction bs rule: base64_EncodeToString.induct)
  case (1 x y z rest)
  then obtain vs where vs: "sextets (base64_EncodeToString rest) = Some vs"
      "decodeQuanta vs = Some rest"
    by blast
  note rx = byte_range [of x] and ry = byte_range [of y] and rz = byte_range [of z]
  let ?a = "byte x" and ?b = "byte y" and ?c = "byte z"
  have s: "sextets (base64_EncodeToString (x # y # z # rest))
      = Some ((?a div 4) # ((?a mod 4) * 16 + ?b div 16) # ((?b mod 16) * 4 + ?c div 64)
              # (?c mod 64) # vs)"
    using vs sextet_bounds(1,2) [of ?a ?b] sextet_bounds(3) [of ?b ?c] sextet_bounds(4) [of ?c ?c]
      rx ry rz
    by (simp add: Let_def decodeMap_encodeChar)
  have "decodeQuanta ((?a div 4) # ((?a mod 4) * 16 + ?b div 16) # ((?b mod 16) * 4 + ?c div 64)
              # (?c mod 64) # vs) = Some (x # y # z # rest)"
    using vs quantum_bytes(1,2,3) [of ?a ?b ?c] rx ry rz
    by simp
  with s show ?case by blast
next
  case (2 x y)
  note rx = byte_range [of x] and ry = byte_range [of y]
  let ?a = "byte x" and ?b = "byte y"
  have s: "sextets (base64_EncodeToString [x, y])
      = Some [?a div 4, (?a mod 4) * 16 + ?b div 16, (?b mod 16) * 4]"
    using sextet_bounds(1,2) [of ?a ?b] sextet_bounds(6) [of ?b ?b] rx ry
    by (simp add: Let_def decodeMap_encodeChar)
  have "decodeQuanta [?a div 4, (?a mod 4) * 16 + ?b div 16, (?b mod 16) * 4] = Some [x, y]"
    using quantum_bytes(1,4) [of ?a ?b ?b] rx ry
    by simp
  with s show ?case by blast
next
  case (3 x)
  note rx = byte_range [of x]
  let ?a = "byte x"
  have s: "sextets (base64_EncodeToString [x]) = Some [?a div 4, (?a mod 4) * 16]"
    using sextet_bounds(1,5) [of ?a ?a] rx
    by (simp add: Let_def decodeMap_encodeChar)
  have "decodeQuanta [?a div 4, (?a mod 4) * 16] = Some [x]"
    using quantum_bytes(5) [of ?a ?a ?a] rx
    by simp
  with s show ?case by blast
next
  case 4
  show ?case by simp
qed

lemma base64_round_trip: "base64_DecodeString (base64_EncodeToString bs) = Some bs"
  using base64_round_trip_aux [of bs] by (auto simp: base64_DecodeString_def)

lemma base64_no_dot: "CHR ''.'' \<notin> set (base64_EncodeToString bs)"
proof (induction bs rule: base64_EncodeToString.induct)
  case (1 x y z rest)
  note rx = byte_range [of x] and ry = byte_range [of y] and rz = byte_range [of z]
  let ?a = "byte x" and ?b = "byte y" and ?c = "byte z"
  show ?case
    using 1 rx ry rz
      encodeChar_not_dot [OF sextet_bounds(1) [of ?a ?b]]
      encodeChar_not_dot [OF sextet_bounds(2) [of ?a ?b]]
      encodeChar_not_dot [OF sextet_bounds(3) [of ?b ?c]]
      encodeChar_not_dot [OF sextet_bounds(4) [of ?c ?c]]
    by (auto simp: Let_def)
next
  case (2 x y)
  note rx = byte_range [of x] and ry = byte_range [of y]
  let ?a = "byte x" and ?b = "byte y"
  show ?case
    using rx ry
      encodeChar_not_dot [OF sextet_bounds(1) [of ?a ?b]]
      encodeChar_not_dot [OF sextet_bounds(2) [of ?a ?b]]
      encodeChar_not_dot [OF sextet_bounds(6) [of ?b ?b]]
    by (auto simp: Let_def)
next
  case (3 x)
  note rx = byte_range [of x]
  let ?a = "byte x"
  show ?case
    using rx
      encodeChar_not_dot [OF sextet_bounds(1) [of ?a ?a]]
      encodeChar_not_dot [OF sextet_bounds(5) [of ?a ?a]]
    by (auto simp: Let_def)
next
  case 4
  show ?case by simp
qed

lemma strings_Split_token:
  assumes "CHR ''.'' \<notin> set a" and "CHR ''.'' \<notin> set b" and "CHR ''.'' \<notin> set c"
  shows "strings_Split (a @ ''.'' @ b @ ''.'' @ c) (CHR ''.'') = [a, b, c]"
  using assms by (simp add: strings_Split_append strings_Split_no_sep)

text \<open>The text of a string: what the lexer and \<open>unquote\<close> make of it.\<close>

lemma char_eq_byte: "(c = d) = (byte c = byte d)"
  by auto

lemma hexDigit_byte:
  assumes "0 \<le> v" and "v < 16"
  shows "byte (hexDigit v) = (if v < 10 then 0x30 + v else 0x61 + (v - 10))"
  using assms by (simp add: hexDigit_def byte_char_of del: of_char_of)

lemma hexval_hexDigit: "0 \<le> v \<Longrightarrow> v < 16 \<Longrightarrow> hexval (hexDigit v) = Some v"
  by (simp add: hexval_def hexDigit_byte Let_def)

lemma hexDigit_plain:
  assumes "0 \<le> v" and "v < 16"
  shows "hexDigit v \<noteq> CHR 0x22 \<and> hexDigit v \<noteq> CHR 0x5C \<and> \<not> byte (hexDigit v) < 0x20"
  using hexDigit_byte [OF assms] assms by (auto simp: char_eq_byte [of "hexDigit v"])

lemma appendString_ascii:
  assumes "0 \<le> r" and "r < 0x80"
  shows "appendString (char_of r # rest) = escapeRune r @ appendString rest"
proof -
  have b: "byte (char_of r :: char) = r"
    using assms by (intro byte_char_of) linarith+
  have e: "(char_of r = d) = (r = byte d)" for d :: char
    using b by (auto simp del: of_char_of)
  show ?thesis
    using assms by (simp add: escapeRune_def b e Let_def del: of_char_of)
qed

lemma appendString_EncodeRune:
  assumes "validRune r"
  shows "appendString (EncodeRune r @ rest) = escapeRune r @ appendString rest"
proof (cases "r < 0x80")
  case True
  from assms have "0 \<le> r"
    by (simp add: validRune_def)
  moreover from this True have "EncodeRune r = [char_of r]"
    by (simp add: EncodeRune_def)
  ultimately show ?thesis
    using appendString_ascii [of r rest] True by simp
next
  case False
  from EncodeRune_shape [OF assms] False
  obtain c c' cs where e: "EncodeRune r = c # c' # cs" and c: "0xC2 \<le> byte c"
    by auto
  have d: "DecodeRuneInString (c # c' # cs @ rest) = (r, Suc (Suc (length cs)))"
    using DecodeRuneInString_EncodeRune [OF assms, of rest] e by simp
  have "appendString (c # c' # cs @ rest) = escapeRune r @ appendString rest"
    using c False by (simp add: d e escapeRune_def Let_def del: DecodeRuneInString.simps)
  then show ?thesis
    by (simp add: e)
qed

lemma appendString_encodeAll:
  "list_all validRune rs \<Longrightarrow> appendString (encodeAll rs) = concat (map escapeRune rs)"
  by (induction rs) (simp_all add: appendString_EncodeRune)

lemma div16_bounds: "0 \<le> (r::int) \<Longrightarrow> r < 0x80 \<Longrightarrow> 0 \<le> r div 16 \<and> r div 16 < 16"
  by presburger

lemma mod16_bounds: "0 \<le> (r::int) mod 16 \<and> r mod 16 < 16"
  by simp

lemma lex_plain:
  "list_all plain xs \<Longrightarrow> lex (LStr acc) (xs @ t) = lex (LStr (rev xs @ acc)) t"
  by (induction xs arbitrary: acc) (simp_all add: plain_def)

lemma plain_high: "0x80 \<le> byte c \<Longrightarrow> plain c"
  unfolding plain_def by (auto simp: char_eq_byte [of c])

lemma plain_hexDigit: "0 \<le> v \<Longrightarrow> v < 16 \<Longrightarrow> plain (hexDigit v)"
  unfolding plain_def by (rule hexDigit_plain)

lemma plain_literals:
  "plain (CHR ''u'')" "plain (CHR ''0'')" "plain (CHR ''2'')"
  by (simp_all add: plain_def)

lemma escapeRune_form:
  assumes "validRune r"
  shows "list_all plain (escapeRune r)
    \<or> (\<exists>e p. escapeRune r = CHR 0x5C # e # p \<and> list_all plain p)"
proof (cases "r < 0x80")
  case True
  from assms have r0: "0 \<le> r"
    by (simp add: validRune_def)
  have b: "byte (char_of r :: char) = r"
    using r0 True by (intro byte_char_of) linarith+
  consider (q) "r = 0x22 \<or> r = 0x5C" | (n) "r = 0x0A" | (cr) "r = 0x0D" | (t) "r = 0x09"
    | (u) "r \<noteq> 0x22" "r \<noteq> 0x5C" "r \<noteq> 0x0A" "r \<noteq> 0x0D" "r \<noteq> 0x09"
        "r < 0x20 \<or> r = 0x3C \<or> r = 0x3E \<or> r = 0x26"
    | (p) "r \<noteq> 0x22" "r \<noteq> 0x5C" "\<not> r < 0x20" "r \<noteq> 0x3C" "r \<noteq> 0x3E" "r \<noteq> 0x26"
    by linarith
  then show ?thesis
  proof cases
    case q
    then have "escapeRune r = [CHR 0x5C, char_of r]"
      by (auto simp: escapeRune_def)
    then show ?thesis
      by simp
  next
    case n
    then have "escapeRune r = [CHR 0x5C, CHR ''n'']"
      by (simp add: escapeRune_def)
    then show ?thesis
      by simp
  next
    case cr
    then have "escapeRune r = [CHR 0x5C, CHR ''r'']"
      by (simp add: escapeRune_def)
    then show ?thesis
      by simp
  next
    case t
    then have "escapeRune r = [CHR 0x5C, CHR ''t'']"
      by (simp add: escapeRune_def)
    then show ?thesis
      by simp
  next
    case u
    with True have "escapeRune r
        = [CHR 0x5C, CHR ''u'', CHR ''0'', CHR ''0'', hexDigit (r div 16), hexDigit (r mod 16)]"
      unfolding escapeRune_def by simp
    moreover have "plain (hexDigit (r div 16))"
      using div16_bounds [OF r0 True] by (intro plain_hexDigit) simp_all
    moreover have "plain (hexDigit (r mod 16))"
      by (intro plain_hexDigit) simp_all
    ultimately show ?thesis
      by (simp add: plain_literals)
  next
    case p
    with True have "escapeRune r = [char_of r]"
      unfolding escapeRune_def by simp
    moreover have "plain (char_of r)"
      unfolding plain_def using p b by (auto simp: char_eq_byte [of "char_of r"] simp del: of_char_of)
    ultimately show ?thesis
      by simp
  qed
next
  case False
  show ?thesis
  proof (cases "r = 0x2028 \<or> r = 0x2029")
    case True
    then have "escapeRune r
        = [CHR 0x5C, CHR ''u'', CHR ''2'', CHR ''0'', CHR ''2'', hexDigit (r mod 16)]"
      by (auto simp: escapeRune_def)
    moreover have "plain (hexDigit (r mod 16))"
      by (intro plain_hexDigit) simp_all
    ultimately show ?thesis
      by (simp add: plain_literals)
  next
    case other: False
    from EncodeRune_shape [OF assms] False
    have "list_all (\<lambda>c. 0x80 \<le> byte c) (EncodeRune r)"
      by auto
    then have "list_all plain (EncodeRune r)"
      using plain_high by (simp add: list_all_iff)
    moreover from False other have "escapeRune r = EncodeRune r"
      by (simp add: escapeRune_def)
    ultimately show ?thesis
      by simp
  qed
qed

lemma lex_escapeRune:
  assumes "validRune r"
  shows "lex (LStr acc) (escapeRune r @ t) = lex (LStr (rev (escapeRune r) @ acc)) t"
  using escapeRune_form [OF assms]
proof (elim disjE exE conjE)
  assume "list_all plain (escapeRune r)"
  then show ?thesis
    by (rule lex_plain)
next
  fix e p
  assume e: "escapeRune r = CHR 0x5C # e # p" and p: "list_all plain p"
  have "lex (LStr acc) (CHR 0x5C # e # p @ t) = lex (LStr (e # CHR 0x5C # acc)) (p @ t)"
    by simp
  also have "\<dots> = lex (LStr (rev p @ e # CHR 0x5C # acc)) t"
    using p by (rule lex_plain)
  finally show ?thesis
    by (simp add: e)
qed

lemma lex_escapeAll:
  "list_all validRune rs \<Longrightarrow>
   lex (LStr acc) (concat (map escapeRune rs) @ t)
   = lex (LStr (rev (concat (map escapeRune rs)) @ acc)) t"
  by (induction rs arbitrary: acc) (simp_all add: lex_escapeRune)

lemma append_single: "(@) [c] = Cons c"
  by (simp add: fun_eq_iff)

lemma hexval_literals: "hexval (CHR ''0'') = Some 0" "hexval (CHR ''2'') = Some 2"
  by (simp_all add: hexval_def)

lemma getu4_escape:
  assumes "hexval a = Some x3" "hexval b = Some x2" "hexval c = Some x1" "hexval d = Some x0"
  shows "getu4 (CHR 0x5C # CHR ''u'' # a # b # c # d # t) = x3 * 4096 + x2 * 256 + x1 * 16 + x0"
  using assms by (simp add: getu4_def)

lemma unquote_u:
  assumes "getu4 (CHR 0x5C # CHR ''u'' # a # b # c # d # t) = rr" and "0 \<le> rr" and "rr < 0xD800"
  shows "unquote (CHR 0x5C # CHR ''u'' # a # b # c # d # t)
         = map_option ((@) (EncodeRune rr)) (unquote t)"
  using assms by (simp add: Let_def)

lemma unquote_simple:
  assumes "simpleEscape e = Some x" and "e \<noteq> CHR ''u''"
  shows "unquote (CHR 0x5C # e # t) = map_option (Cons x) (unquote t)"
  using assms by simp

lemma unquote_ascii:
  assumes "c \<noteq> CHR 0x5C" "c \<noteq> CHR 0x22" "\<not> byte c < 0x20" "byte c < 0x80"
  shows "unquote (c # t) = map_option (Cons c) (unquote t)"
  using assms by simp

lemma unquote_high:
  assumes "0x80 \<le> byte c" and "DecodeRuneInString (c # s) = (r, w)"
  shows "unquote (c # s) = map_option ((@) (EncodeRune r)) (unquote (drop (w - 1) s))"
proof -
  from assms(1) have "c \<noteq> CHR 0x5C" "c \<noteq> CHR 0x22" "\<not> byte c < 0x20" "\<not> byte c < 0x80"
    by (auto simp: char_eq_byte [of c])
  then show ?thesis
    using assms(2) by (simp del: DecodeRuneInString.simps)
qed

lemma char_of_byte_eq: "byte d = r \<Longrightarrow> char_of r = d"
  by auto

lemma unquote_escapeRune:
  assumes "validRune r"
  shows "unquote (escapeRune r @ t) = map_option ((@) (EncodeRune r)) (unquote t)"
proof (cases "r < 0x80")
  case True
  from assms have r0: "0 \<le> r"
    by (simp add: validRune_def)
  have b: "byte (char_of r :: char) = r"
    using r0 True by (intro byte_char_of) linarith+
  have enc: "EncodeRune r = [char_of r]"
    using r0 True by (simp add: EncodeRune_def)
  consider (q) "r = 0x22 \<or> r = 0x5C" | (n) "r = 0x0A" | (cr) "r = 0x0D" | (t) "r = 0x09"
    | (u) "r \<noteq> 0x22" "r \<noteq> 0x5C" "r \<noteq> 0x0A" "r \<noteq> 0x0D" "r \<noteq> 0x09"
        "r < 0x20 \<or> r = 0x3C \<or> r = 0x3E \<or> r = 0x26"
    | (p) "r \<noteq> 0x22" "r \<noteq> 0x5C" "\<not> r < 0x20" "r \<noteq> 0x3C" "r \<noteq> 0x3E" "r \<noteq> 0x26"
    by linarith
  then show ?thesis
  proof cases
    case q
    then have e: "escapeRune r = [CHR 0x5C, char_of r]"
      by (auto simp: escapeRune_def)
    from q have "(char_of r :: char) = CHR 0x22 \<or> (char_of r :: char) = CHR 0x5C"
      using b by (auto simp: char_eq_byte [of "char_of r"] simp del: of_char_of)
    then have "simpleEscape (char_of r) = Some (char_of r)" "(char_of r :: char) \<noteq> CHR ''u''"
      by (auto simp: simpleEscape_def)
    from unquote_simple [OF this] show ?thesis
      by (simp add: e enc append_single)
  next
    case n
    then have e: "escapeRune r = [CHR 0x5C, CHR ''n'']"
      by (simp add: escapeRune_def)
    have "(char_of r :: char) = CHR 0x0A"
      using n by (intro char_of_byte_eq) simp
    moreover have "simpleEscape (CHR ''n'') = Some (CHR 0x0A)" "CHR ''n'' \<noteq> CHR ''u''"
      by (simp_all add: simpleEscape_def)
    from unquote_simple [OF this] have
      "unquote (CHR 0x5C # CHR ''n'' # t) = map_option (Cons (CHR 0x0A)) (unquote t)" .
    ultimately show ?thesis
      by (simp add: e enc append_single)
  next
    case cr
    then have e: "escapeRune r = [CHR 0x5C, CHR ''r'']"
      by (simp add: escapeRune_def)
    have "(char_of r :: char) = CHR 0x0D"
      using cr by (intro char_of_byte_eq) simp
    moreover have "simpleEscape (CHR ''r'') = Some (CHR 0x0D)" "CHR ''r'' \<noteq> CHR ''u''"
      by (simp_all add: simpleEscape_def)
    from unquote_simple [OF this] have
      "unquote (CHR 0x5C # CHR ''r'' # t) = map_option (Cons (CHR 0x0D)) (unquote t)" .
    ultimately show ?thesis
      by (simp add: e enc append_single)
  next
    case t
    then have e: "escapeRune r = [CHR 0x5C, CHR ''t'']"
      by (simp add: escapeRune_def)
    have "(char_of r :: char) = CHR 0x09"
      using t by (intro char_of_byte_eq) simp
    moreover have "simpleEscape (CHR ''t'') = Some (CHR 0x09)" "CHR ''t'' \<noteq> CHR ''u''"
      by (simp_all add: simpleEscape_def)
    from unquote_simple [OF this] have
      "unquote (CHR 0x5C # CHR ''t'' # t) = map_option (Cons (CHR 0x09)) (unquote t)" .
    ultimately show ?thesis
      by (simp add: e enc append_single)
  next
    case u
    with True have e: "escapeRune r
        = [CHR 0x5C, CHR ''u'', CHR ''0'', CHR ''0'', hexDigit (r div 16), hexDigit (r mod 16)]"
      unfolding escapeRune_def by simp
    have h1: "hexval (hexDigit (r div 16)) = Some (r div 16)"
      using div16_bounds [OF r0 True] by (intro hexval_hexDigit) simp_all
    have h0: "hexval (hexDigit (r mod 16)) = Some (r mod 16)"
      by (intro hexval_hexDigit) simp_all
    have "getu4 (CHR 0x5C # CHR ''u'' # CHR ''0'' # CHR ''0'' # hexDigit (r div 16)
            # hexDigit (r mod 16) # t) = r"
      using getu4_escape [OF hexval_literals(1) hexval_literals(1) h1 h0, of t] by simp
    from unquote_u [OF this] r0 True show ?thesis
      by (simp add: e)
  next
    case p
    with True have e: "escapeRune r = [char_of r]"
      unfolding escapeRune_def by simp
    have "(char_of r :: char) \<noteq> CHR 0x5C" "(char_of r :: char) \<noteq> CHR 0x22"
      "\<not> byte (char_of r :: char) < 0x20" "byte (char_of r :: char) < 0x80"
      using p b True by (auto simp: char_eq_byte [of "char_of r"] simp del: of_char_of)
    from unquote_ascii [OF this] show ?thesis
      by (simp add: e enc append_single)
  qed
next
  case False
  show ?thesis
  proof (cases "r = 0x2028 \<or> r = 0x2029")
    case True
    then have e: "escapeRune r
        = [CHR 0x5C, CHR ''u'', CHR ''2'', CHR ''0'', CHR ''2'', hexDigit (r mod 16)]"
      by (auto simp: escapeRune_def)
    have h0: "hexval (hexDigit (r mod 16)) = Some (r mod 16)"
      by (intro hexval_hexDigit) simp_all
    have "getu4 (CHR 0x5C # CHR ''u'' # CHR ''2'' # CHR ''0'' # CHR ''2''
            # hexDigit (r mod 16) # t) = r"
      using getu4_escape [OF hexval_literals(2) hexval_literals(1) hexval_literals(2) h0, of t] True
      by auto
    from unquote_u [OF this] True show ?thesis
      by (auto simp: e)
  next
    case other: False
    from EncodeRune_shape [OF assms] False
    obtain c c' cs where enc: "EncodeRune r = c # c' # cs" and c: "0xC2 \<le> byte c"
      by auto
    have d: "DecodeRuneInString (c # c' # cs @ t) = (r, Suc (Suc (length cs)))"
      using DecodeRuneInString_EncodeRune [OF assms, of t] enc by simp
    from c have "0x80 \<le> byte c"
      by simp
    from unquote_high [OF this d] have
      "unquote (c # c' # cs @ t) = map_option ((@) (EncodeRune r)) (unquote t)"
      by simp
    moreover from False other have "escapeRune r = EncodeRune r"
      by (simp add: escapeRune_def)
    ultimately show ?thesis
      by (simp add: enc)
  qed
qed

lemma unquote_escapeAll:
  "list_all validRune rs \<Longrightarrow> unquote (concat (map escapeRune rs)) = Some (encodeAll rs)"
proof (induction rs)
  case Nil
  show ?case by simp
next
  case (Cons r rs)
  then have "validRune r" and ih: "unquote (concat (map escapeRune rs)) = Some (encodeAll rs)"
    by simp_all
  from unquote_escapeRune [OF this(1), of "concat (map escapeRune rs)"] ih show ?case
    by simp
qed

lemma validString_runes:
  assumes "validString s"
  shows "list_all validRune (runes s)" and "encodeAll (runes s) = s"
  using assms runes_valid [of _ s] by (simp_all add: validString_def list_all_iff)

lemma validString_encodeAll: "list_all validRune rs \<Longrightarrow> validString (encodeAll rs)"
  by (simp add: validString_def runes_encodeAll)

lemma unquote_appendString:
  assumes "validString s"
  shows "unquote (appendString s) = Some s"
proof -
  note v = validString_runes [OF assms]
  have "appendString s = concat (map escapeRune (runes s))"
    using appendString_encodeAll [OF v(1)] v(2) by simp
  with unquote_escapeAll [OF v(1)] v(2) show ?thesis
    by simp
qed

lemma lex_quoteString:
  assumes "validString s"
  shows "lex LTop (quoteString s @ rest) = map_option (Cons (TString (appendString s))) (lex LTop rest)"
proof -
  note v = validString_runes [OF assms]
  have a: "appendString s = concat (map escapeRune (runes s))"
    using appendString_encodeAll [OF v(1)] v(2) by simp
  have "lex (LStr []) (appendString s @ CHR 0x22 # rest)
      = lex (LStr (rev (appendString s) @ [])) (CHR 0x22 # rest)"
    unfolding a using v(1) by (rule lex_escapeAll)
  then show ?thesis
    by (simp add: quoteString_def isSpace_def)
qed

text \<open>The text of a number.\<close>

lemma numberChar_dropWhile:
  "list_all numberChar (dropWhile isDigit s) \<Longrightarrow> list_all numberChar s"
proof (induction s)
  case Nil
  show ?case by simp
next
  case (Cons a s)
  show ?case
  proof (cases "isDigit a")
    case True
    with Cons show ?thesis
      by (simp add: numberChar_def)
  next
    case False
    with Cons.prems show ?thesis
      by simp
  qed
qed

lemma numberChar_digits: "list_all isDigit s \<Longrightarrow> list_all numberChar s"
  by (induction s) (auto simp: numberChar_def)

lemma validExponent_chars: "validExponent s \<Longrightarrow> list_all numberChar s"
  by (auto simp: validExponent_def numberChar_digits numberChar_def
      split: list.splits if_splits)

lemma validFraction_chars:
  assumes "validFraction s"
  shows "list_all numberChar s"
proof (cases s)
  case Nil
  then show ?thesis by simp
next
  case (Cons p s1)
  show ?thesis
  proof (cases "p = CHR ''.''")
    case True
    with assms Cons have
      "case s1 of [] \<Rightarrow> False | d # s2 \<Rightarrow> isDigit d \<and> validExponent (dropWhile isDigit s2)"
      by (simp add: validFraction_def)
    then obtain d s2 where s1: "s1 = d # s2" and d: "isDigit d"
      and e: "validExponent (dropWhile isDigit s2)"
      by (cases s1) simp_all
    from e have "list_all numberChar s2"
      by (rule numberChar_dropWhile [OF validExponent_chars])
    with Cons True s1 d show ?thesis
      by (simp add: numberChar_def)
  next
    case False
    with assms Cons have "validExponent s"
      by (simp add: validFraction_def)
    then show ?thesis
      by (rule validExponent_chars)
  qed
qed

lemma validNumber_digits:
  assumes "(case s of [] \<Rightarrow> False
            | d # s1 \<Rightarrow> if d = CHR ''0'' then validFraction s1
                         else isDigit d \<and> validFraction (dropWhile isDigit s1))"
  shows "\<exists>d s1. s = d # s1 \<and> isDigit d \<and> list_all numberChar s1"
proof (cases s)
  case Nil
  with assms show ?thesis by simp
next
  case (Cons d s1)
  show ?thesis
  proof (cases "d = CHR ''0''")
    case True
    with assms Cons have "validFraction s1"
      by simp
    then have "list_all numberChar s1"
      by (rule validFraction_chars)
    with Cons True show ?thesis
      by (simp add: isDigit_def)
  next
    case False
    with assms Cons have d: "isDigit d" and f: "validFraction (dropWhile isDigit s1)"
      by simp_all
    from f have "list_all numberChar s1"
      by (rule numberChar_dropWhile [OF validFraction_chars])
    with Cons d show ?thesis
      by simp
  qed
qed

lemma validNumber_chars:
  assumes "validNumber n"
  shows "\<exists>c n'. n = c # n' \<and> (c = CHR ''-'' \<or> isDigit c) \<and> list_all numberChar n'"
proof (cases "n \<noteq> [] \<and> hd n = CHR ''-''")
  case True
  then obtain n' where n: "n = CHR ''-'' # n'"
    by (cases n) simp_all
  from assms have "case n' of [] \<Rightarrow> False
      | d # s1 \<Rightarrow> if d = CHR ''0'' then validFraction s1
                   else isDigit d \<and> validFraction (dropWhile isDigit s1)"
    unfolding validNumber_def n by simp
  from validNumber_digits [OF this] have "list_all numberChar n'"
    by (auto simp: numberChar_def)
  with n show ?thesis
    by simp
next
  case False
  with assms have "case n of [] \<Rightarrow> False
      | d # s1 \<Rightarrow> if d = CHR ''0'' then validFraction s1
                   else isDigit d \<and> validFraction (dropWhile isDigit s1)"
    unfolding validNumber_def by simp
  from validNumber_digits [OF this] show ?thesis
    by blast
qed

lemma lex_LNum_chars:
  "list_all numberChar xs \<Longrightarrow> lex (LNum acc) (xs @ rest) = lex (LNum (rev xs @ acc)) rest"
  by (induction xs arbitrary: acc) simp_all

lemma lex_LNum_end:
  assumes "validNumber (rev acc)" and "delimited rest"
  shows "lex (LNum acc) rest = map_option (Cons (TNumber (rev acc))) (lex LTop rest)"
proof (cases rest)
  case Nil
  with assms show ?thesis
    by simp
next
  case (Cons c s)
  with assms(2) consider "c = CHR '',''" | "c = CHR '']''" | "c = CHR ''}''"
    by (auto simp: delimited_def)
  then show ?thesis
    using assms(1) Cons
    by cases (simp_all add: numberChar_def isDigit_def isSpace_def option.map_comp comp_def)
qed

lemma lex_number:
  assumes "validNumber n" and "delimited rest"
  shows "lex LTop (n @ rest) = map_option (Cons (TNumber n)) (lex LTop rest)"
proof -
  from validNumber_chars [OF assms(1)] obtain c n' where
    n: "n = c # n'" and c: "c = CHR ''-'' \<or> isDigit c" and n': "list_all numberChar n'"
    by blast
  from c have "lex LTop (c # n' @ rest) = lex (LNum [c]) (n' @ rest)"
    by (auto simp: isDigit_def isSpace_def char_eq_byte [of c])
  also have "\<dots> = lex (LNum (rev n' @ [c])) rest"
    using n' by (rule lex_LNum_chars)
  also have "\<dots> = map_option (Cons (TNumber (rev (rev n' @ [c])))) (lex LTop rest)"
    using assms by (intro lex_LNum_end) (simp_all add: n)
  finally show ?thesis
    by (simp add: n)
qed

text \<open>The lexer on the text of a value.\<close>

lemma delimited_simps [simp]:
  "delimited []" "delimited (CHR '','' # s)" "delimited (CHR '']'' # s)" "delimited (CHR ''}'' # s)"
  by (simp_all add: delimited_def)

lemma delimited_moreElems: "delimited (moreElems fmt ys @ CHR '']'' # rest)"
  by (cases ys) simp_all

lemma delimited_moreMembers: "delimited (moreMembers fmt kvs @ CHR ''}'' # rest)"
  by (cases kvs) auto

lemma lex_punct:
  "lex LTop (CHR ''{'' # s) = map_option (Cons TLBrace) (lex LTop s)"
  "lex LTop (CHR ''}'' # s) = map_option (Cons TRBrace) (lex LTop s)"
  "lex LTop (CHR ''['' # s) = map_option (Cons TLBrack) (lex LTop s)"
  "lex LTop (CHR '']'' # s) = map_option (Cons TRBrack) (lex LTop s)"
  "lex LTop (CHR '':'' # s) = map_option (Cons TColon) (lex LTop s)"
  "lex LTop (CHR '','' # s) = map_option (Cons TComma) (lex LTop s)"
  by (simp_all add: isSpace_def)

lemma lex_literals:
  "lex LTop (''null'' @ s) = map_option (Cons TNull) (lex LTop s)"
  "lex LTop (''true'' @ s) = map_option (Cons TTrue) (lex LTop s)"
  "lex LTop (''false'' @ s) = map_option (Cons TFalse) (lex LTop s)"
  by (simp_all add: isSpace_def isDigit_def)

lemma lex_moreElems:
  assumes "\<And>x rest ts. x \<in> set ys \<Longrightarrow> delimited rest \<Longrightarrow> lex LTop rest = Some ts
            \<Longrightarrow> lex LTop (jsonText fmt x @ rest) = Some (tokens fmt x @ ts)"
    and "lex LTop rest = Some ts"
  shows "lex LTop (moreElems fmt ys @ CHR '']'' # rest)
         = Some (concat (map (\<lambda>y. TComma # tokens fmt y) ys) @ TRBrack # ts)"
  using assms(1)
proof (induction ys)
  case Nil
  show ?case
    using assms(2) by (simp add: lex_punct del: lex.simps)
next
  case (Cons y ys)
  have "lex LTop (moreElems fmt ys @ CHR '']'' # rest)
      = Some (concat (map (\<lambda>y. TComma # tokens fmt y) ys) @ TRBrack # ts)"
    using Cons.prems by (intro Cons.IH) simp_all
  from Cons.prems [OF _ delimited_moreElems this] show ?case
    by (simp add: lex_punct del: lex.simps)
qed

lemma lex_memberText:
  assumes "validString k"
    and "lex LTop (jsonText fmt v @ rest) = Some (tokens fmt v @ ts)"
  shows "lex LTop (memberText fmt k v @ rest)
         = Some (TString (appendString k) # TColon # tokens fmt v @ ts)"
  using assms(2) lex_quoteString [OF assms(1), of "CHR '':'' # jsonText fmt v @ rest"]
  by (simp add: lex_punct del: lex.simps)

lemma lex_moreMembers:
  assumes "\<And>kv rest ts. kv \<in> set kvs \<Longrightarrow> delimited rest \<Longrightarrow> lex LTop rest = Some ts
            \<Longrightarrow> lex LTop (jsonText fmt (snd kv) @ rest) = Some (tokens fmt (snd kv) @ ts)"
    and "\<And>kv. kv \<in> set kvs \<Longrightarrow> validString (fst kv)"
    and "lex LTop rest = Some ts"
  shows "lex LTop (moreMembers fmt kvs @ CHR ''}'' # rest)
         = Some (concat (map (\<lambda>kv. TComma # TString (appendString (fst kv)) # TColon
                                   # tokens fmt (snd kv)) kvs) @ TRBrace # ts)"
  using assms(1,2)
proof (induction kvs)
  case Nil
  show ?case
    using assms(3) by (simp add: lex_punct del: lex.simps)
next
  case (Cons kv kvs)
  obtain k v where kv: "kv = (k, v)"
    by (cases kv)
  have ih: "lex LTop (moreMembers fmt kvs @ CHR ''}'' # rest)
      = Some (concat (map (\<lambda>kv. TComma # TString (appendString (fst kv)) # TColon
                                # tokens fmt (snd kv)) kvs) @ TRBrace # ts)"
    using Cons.prems by (intro Cons.IH) simp_all
  have "lex LTop (jsonText fmt v @ moreMembers fmt kvs @ CHR ''}'' # rest)
      = Some (tokens fmt v @ concat (map (\<lambda>kv. TComma # TString (appendString (fst kv)) # TColon
                                # tokens fmt (snd kv)) kvs) @ TRBrace # ts)"
    using Cons.prems(1) [OF _ delimited_moreMembers ih, of kv] by (simp add: kv)
  moreover have "validString k"
    using Cons.prems(2) [of kv] by (simp add: kv)
  ultimately show ?case
    using lex_memberText [of k fmt v] by (simp add: kv lex_punct del: lex.simps)
qed

lemma lex_jsonText:
  assumes "wellFormed fmt pf v" and "delimited rest" and "lex LTop rest = Some ts"
  shows "lex LTop (jsonText fmt v @ rest) = Some (tokens fmt v @ ts)"
  using assms
proof (induction v arbitrary: rest ts)
  case JNull
  then show ?case
    using lex_literals(1) [of rest] by (simp del: lex.simps)
next
  case (JBool b)
  then show ?case
    using lex_literals(2,3) [of rest] by (simp del: lex.simps)
next
  case (JNumber x)
  then show ?case
    using lex_number [of "fmt x" rest] by simp
next
  case (JString s)
  then show ?case
    using lex_quoteString [of s rest] by simp
next
  case (JArray xs)
  show ?case
  proof (cases xs)
    case Nil
    with JArray.prems show ?thesis
      by (simp add: lex_punct del: lex.simps)
  next
    case (Cons x ys)
    have el: "lex LTop (jsonText fmt y @ rest') = Some (tokens fmt y @ ts')"
      if "y \<in> set xs" "delimited rest'" "lex LTop rest' = Some ts'" for y rest' ts'
      using that JArray.prems(1) by (intro JArray.IH) simp_all
    have "lex LTop (moreElems fmt ys @ CHR '']'' # rest)
        = Some (concat (map (\<lambda>y. TComma # tokens fmt y) ys) @ TRBrack # ts)"
      using JArray.prems(3) el Cons by (intro lex_moreElems) simp_all
    from el [OF _ delimited_moreElems this, of x] show ?thesis
      by (simp add: Cons lex_punct del: lex.simps)
  qed
next
  case (JObject kvs)
  show ?case
  proof (cases kvs)
    case Nil
    with JObject.prems show ?thesis
      by (simp add: lex_punct del: lex.simps)
  next
    case (Cons kv kvs')
    obtain k v where kv: "kv = (k, v)"
      by (cases kv)
    have el: "lex LTop (jsonText fmt (snd m) @ rest') = Some (tokens fmt (snd m) @ ts')"
      if "m \<in> set kvs" "delimited rest'" "lex LTop rest' = Some ts'" for m rest' ts'
    proof -
      have "snd m \<in> Basic_BNFs.snds m"
        by (cases m) simp
      moreover from that(1) JObject.prems(1) have "wellFormed fmt pf (snd m)"
        by simp
      ultimately show ?thesis
        using that by (intro JObject.IH [of m]) simp_all
    qed
    have ks: "validString (fst m)" if "m \<in> set kvs" for m
      using that JObject.prems(1) by simp
    have "lex LTop (moreMembers fmt kvs' @ CHR ''}'' # rest)
        = Some (concat (map (\<lambda>kv. TComma # TString (appendString (fst kv)) # TColon
                                  # tokens fmt (snd kv)) kvs') @ TRBrace # ts)"
      using JObject.prems(3) el ks Cons by (intro lex_moreMembers) simp_all
    from el [OF _ delimited_moreMembers this, of kv] have
      "lex LTop (jsonText fmt v @ moreMembers fmt kvs' @ CHR ''}'' # rest)
       = Some (tokens fmt v @ concat (map (\<lambda>kv. TComma # TString (appendString (fst kv)) # TColon
                                  # tokens fmt (snd kv)) kvs') @ TRBrace # ts)"
      by (simp add: Cons kv)
    moreover have "validString k"
      using ks [of kv] by (simp add: Cons kv)
    ultimately show ?thesis
      using lex_memberText [of k fmt v] by (simp add: Cons kv lex_punct del: lex.simps)
  qed
qed

text \<open>The machine on the tokens of a value that fits the depth limit.\<close>

lemma step_begin:
  "mode = BeginValue \<or> mode = BeginValueOrEmpty \<Longrightarrow> tok \<noteq> TRBrack
   \<Longrightarrow> step pf (mode, st) tok = beginValue pf tok st"
  by (auto simp: step_def)

lemma run_step: "step pf ms tok = Some ms' \<Longrightarrow> run pf ms (tok # toks) = run pf ms' toks"
  by simp

lemma nesting_elem: "y \<in> set ys \<Longrightarrow> f y \<le> foldr max (map f ys) (0::int)"
  by (induction ys) auto

lemma nesting_nonneg: "0 \<le> foldr max (map f ys) (0::int)"
  by (induction ys) auto

lemma update_new: "k \<notin> fst ` set obj \<Longrightarrow> AList.update k v obj = obj @ [(k, v)]"
  by (induction obj) auto

lemma endValue_InArray:
  "endValue v (InArray es # st) = Some (EndValue, InArray (es @ [v]) # st)"
  by (simp add: endValue_def)

lemma endValue_InMember:
  "endValue v (InMember obj k # st) = Some (EndValue, InObject (AList.update k v obj) # st)"
  by (simp add: endValue_def)

lemma run_open_array:
  assumes "mode = BeginValue \<or> mode = BeginValueOrEmpty" and "int (length st) + 1 \<le> 10000"
  shows "run pf (mode, st) (TLBrack # toks) = run pf (BeginValueOrEmpty, InArray [] # st) toks"
  using assms by (intro run_step) (simp add: step_begin beginValue_def pushParseState_def)

lemma run_open_object:
  assumes "mode = BeginValue \<or> mode = BeginValueOrEmpty" and "int (length st) + 1 \<le> 10000"
  shows "run pf (mode, st) (TLBrace # toks) = run pf (BeginStringOrEmpty, InObject [] # st) toks"
  using assms by (intro run_step) (simp add: step_begin beginValue_def pushParseState_def)

lemma run_close_array:
  assumes "mode = EndValue \<or> mode = BeginValueOrEmpty" and "endValue (JArray es) st = Some ms"
  shows "run pf (mode, InArray es # st) (TRBrack # toks) = run pf ms toks"
  using assms by (intro run_step) (auto simp: step_def closeArray_def)

lemma run_close_object:
  assumes "mode = EndValue \<or> mode = BeginStringOrEmpty" and "endValue (JObject obj) st = Some ms"
  shows "run pf (mode, InObject obj # st) (TRBrace # toks) = run pf ms toks"
  using assms by (intro run_step) (auto simp: step_def closeObject_def)

lemma run_comma_array:
  "run pf (EndValue, InArray es # st) (TComma # toks) = run pf (BeginValue, InArray es # st) toks"
  by (intro run_step) (simp add: step_def)

lemma run_comma_object:
  "run pf (EndValue, InObject obj # st) (TComma # toks) = run pf (BeginString, InObject obj # st) toks"
  by (intro run_step) (simp add: step_def)

lemma run_key:
  assumes "mode = BeginString \<or> mode = BeginStringOrEmpty" and "validString k"
  shows "run pf (mode, InObject obj # st) (TString (appendString k) # TColon # toks)
         = run pf (BeginValue, InMember obj k # st) toks"
proof -
  have "step pf (mode, InObject obj # st) (TString (appendString k))
      = Some (ExpectColon, InMember obj k # st)"
    using assms by (auto simp: step_def beginString_def unquote_appendString)
  moreover have "step pf (ExpectColon, InMember obj k # st) TColon
      = Some (BeginValue, InMember obj k # st)"
    by (simp add: step_def)
  ultimately show ?thesis
    by (simp del: run.simps add: run_step)
qed

lemma run_moreElems:
  assumes "\<And>y es rest. y \<in> set ys \<Longrightarrow>
             run pf (BeginValue, InArray es # st) (tokens fmt y @ rest)
             = run pf (EndValue, InArray (es @ [y]) # st) rest"
    and "endValue (JArray (es @ ys)) st = Some ms"
  shows "run pf (EndValue, InArray es # st)
           (concat (map (\<lambda>y. TComma # tokens fmt y) ys) @ TRBrack # rest)
         = run pf ms rest"
  using assms
proof (induction ys arbitrary: es)
  case Nil
  then show ?case
    by (simp add: run_close_array del: run.simps)
next
  case (Cons y ys)
  have "run pf (EndValue, InArray (es @ [y]) # st)
          (concat (map (\<lambda>y. TComma # tokens fmt y) ys) @ TRBrack # rest)
        = run pf ms rest"
    using Cons.prems by (intro Cons.IH) simp_all
  then show ?case
    using Cons.prems(1) [of y es] by (simp add: run_comma_array del: run.simps)
qed

lemma run_moreMembers:
  assumes "\<And>kv obj rest. kv \<in> set kvs \<Longrightarrow>
             run pf (BeginValue, InMember obj (fst kv) # st) (tokens fmt (snd kv) @ rest)
             = run pf (EndValue, InObject (AList.update (fst kv) (snd kv) obj) # st) rest"
    and "\<And>kv. kv \<in> set kvs \<Longrightarrow> validString (fst kv)"
    and "distinct (map fst (obj @ kvs))"
    and "endValue (JObject (obj @ kvs)) st = Some ms"
  shows "run pf (EndValue, InObject obj # st)
           (concat (map (\<lambda>kv. TComma # TString (appendString (fst kv)) # TColon
                                # tokens fmt (snd kv)) kvs) @ TRBrace # rest)
         = run pf ms rest"
  using assms
proof (induction kvs arbitrary: obj)
  case Nil
  then show ?case
    by (simp add: run_close_object del: run.simps)
next
  case (Cons kv kvs)
  have new: "AList.update (fst kv) (snd kv) obj = obj @ [kv]"
    using Cons.prems(3) by (intro trans [OF update_new]) auto
  have "run pf (EndValue, InObject (obj @ [kv]) # st)
          (concat (map (\<lambda>kv. TComma # TString (appendString (fst kv)) # TColon
                               # tokens fmt (snd kv)) kvs) @ TRBrace # rest)
        = run pf ms rest"
    using Cons.prems by (intro Cons.IH) simp_all
  moreover have "validString (fst kv)"
    using Cons.prems(2) by simp
  ultimately show ?case
    using Cons.prems(1) [of kv obj] new
    by (simp add: run_comma_object run_key del: run.simps)
qed

lemma run_tokens:
  assumes "wellFormed fmt pf v" and "int (length st) + nesting v \<le> 10000"
    and "mode = BeginValue \<or> mode = BeginValueOrEmpty"
    and "endValue v st = Some ms"
  shows "run pf (mode, st) (tokens fmt v @ rest) = run pf ms rest"
  using assms
proof (induction v arbitrary: st mode ms rest)
  case JNull
  then show ?case
    by (simp add: step_begin beginValue_def)
next
  case (JBool b)
  then show ?case
    by (cases b) (simp_all add: step_begin beginValue_def)
next
  case (JNumber x)
  then show ?case
    by (simp add: step_begin beginValue_def)
next
  case (JString s)
  then show ?case
    by (simp add: step_begin beginValue_def unquote_appendString)
next
  case (JArray xs)
  from JArray.prems(2) nesting_nonneg [of nesting xs] have room: "int (length st) + 1 \<le> 10000"
    by simp
  show ?case
  proof (cases xs)
    case Nil
    with JArray.prems(3,4) room show ?thesis
      by (simp add: run_open_array run_close_array del: run.simps)
  next
    case (Cons x ys)
    have el: "run pf (m, InArray es # st) (tokens fmt y @ rest')
        = run pf (EndValue, InArray (es @ [y]) # st) rest'"
      if "y \<in> set xs" "m = BeginValue \<or> m = BeginValueOrEmpty" for y m es rest'
    proof -
      from that(1) JArray.prems(1) have "wellFormed fmt pf y"
        by simp
      moreover from nesting_elem [OF that(1), of nesting] JArray.prems(2)
      have "int (length (InArray es # st)) + nesting y \<le> 10000"
        by simp
      ultimately show ?thesis
        using that by (intro JArray.IH endValue_InArray) simp_all
    qed
    have "run pf (EndValue, InArray [x] # st)
            (concat (map (\<lambda>y. TComma # tokens fmt y) ys) @ TRBrack # rest)
          = run pf ms rest"
      using JArray.prems(4) el Cons by (intro run_moreElems) simp_all
    with el [of x BeginValueOrEmpty "[]"] JArray.prems(3) room show ?thesis
      by (simp add: Cons run_open_array del: run.simps)
  qed
next
  case (JObject kvs)
  from JObject.prems(2) nesting_nonneg [of "\<lambda>kv. nesting (snd kv)" kvs]
  have room: "int (length st) + 1 \<le> 10000"
    by simp
  show ?case
  proof (cases kvs)
    case Nil
    with JObject.prems(3,4) room show ?thesis
      by (simp add: run_open_object run_close_object del: run.simps)
  next
    case (Cons kv kvs')
    have el: "run pf (BeginValue, InMember obj (fst m) # st) (tokens fmt (snd m) @ rest')
        = run pf (EndValue, InObject (AList.update (fst m) (snd m) obj) # st) rest'"
      if "m \<in> set kvs" for m obj rest'
    proof -
      have "snd m \<in> Basic_BNFs.snds m"
        by (cases m) simp
      moreover from that JObject.prems(1) have "wellFormed fmt pf (snd m)"
        by simp
      moreover from nesting_elem [OF that, of "\<lambda>kv. nesting (snd kv)"] JObject.prems(2)
      have "int (length (InMember obj (fst m) # st)) + nesting (snd m) \<le> 10000"
        by simp
      ultimately show ?thesis
        using that by (intro JObject.IH [of m] endValue_InMember) simp_all
    qed
    have ks: "validString (fst m)" if "m \<in> set kvs" for m
      using that JObject.prems(1) by simp
    have d: "distinct (map fst kvs)"
      using JObject.prems(1) by simp
    have "AList.update (fst kv) (snd kv) [] = [kv]"
      by simp
    moreover have "run pf (EndValue, InObject [kv] # st)
            (concat (map (\<lambda>kv. TComma # TString (appendString (fst kv)) # TColon
                                 # tokens fmt (snd kv)) kvs') @ TRBrace # rest)
          = run pf ms rest"
      using JObject.prems(4) el ks d Cons by (intro run_moreMembers) simp_all
    ultimately show ?thesis
      using el [of kv "[]"] ks [of kv] JObject.prems(3) room
      by (simp add: Cons run_open_object run_key del: run.simps)
  qed
qed

lemma json_Unmarshal_jsonText:
  assumes "wellFormed fmt pf (JObject h)" and "nesting (JObject h) \<le> 10000"
  shows "json_Unmarshal pf (jsonText fmt (JObject h)) = Some h"
proof -
  have "lex LTop (jsonText fmt (JObject h) @ []) = Some (tokens fmt (JObject h) @ [])"
    by (rule lex_jsonText [OF assms(1)]) simp_all
  moreover have "run pf (BeginValue, []) (tokens fmt (JObject h) @ [])
      = run pf (EndTop (JObject h), []) []"
    using assms by (intro run_tokens) (simp_all add: endValue_def)
  ultimately show ?thesis
    by (simp add: json_Unmarshal_def)
qed

text \<open>The machine on the tokens of a value that is nested too deep.\<close>

lemma nesting_attained:
  "b < foldr max (map f ys) (0::int) \<Longrightarrow> 0 \<le> b \<Longrightarrow> \<exists>y \<in> set ys. b < f y"
proof (induction ys)
  case Nil
  then show ?case by simp
next
  case (Cons y ys)
  show ?case
  proof (cases "b < f y")
    case True
    then show ?thesis by simp
  next
    case False
    with Cons.prems have "b < foldr max (map f ys) 0"
      by simp
    with Cons show ?thesis
      by simp
  qed
qed

lemma run_fail: "step pf ms tok = None \<Longrightarrow> run pf ms (tok # toks) = None"
  by simp

lemma run_open_array_full:
  assumes "mode = BeginValue \<or> mode = BeginValueOrEmpty" and "\<not> int (length st) + 1 \<le> 10000"
  shows "run pf (mode, st) (TLBrack # toks) = None"
  using assms by (intro run_fail) (simp add: step_begin beginValue_def pushParseState_def)

lemma run_open_object_full:
  assumes "mode = BeginValue \<or> mode = BeginValueOrEmpty" and "\<not> int (length st) + 1 \<le> 10000"
  shows "run pf (mode, st) (TLBrace # toks) = None"
  using assms by (intro run_fail) (simp add: step_begin beginValue_def pushParseState_def)

lemma tokens_JArray: "\<exists>toks. tokens fmt (JArray xs) = TLBrack # toks"
  by (cases xs) simp_all

lemma tokens_JObject: "\<exists>toks. tokens fmt (JObject kvs) = TLBrace # toks"
  by (cases kvs) simp_all

lemma run_moreElems_deep:
  assumes "\<And>y es rest. y \<in> set ys \<Longrightarrow> P y \<Longrightarrow>
             run pf (BeginValue, InArray es # st) (tokens fmt y @ rest)
             = run pf (EndValue, InArray (es @ [y]) # st) rest"
    and "\<And>y es rest. y \<in> set ys \<Longrightarrow> \<not> P y \<Longrightarrow>
             run pf (BeginValue, InArray es # st) (tokens fmt y @ rest) = None"
    and "\<exists>y \<in> set ys. \<not> P y"
  shows "run pf (EndValue, InArray es # st)
           (concat (map (\<lambda>y. TComma # tokens fmt y) ys) @ TRBrack # rest)
         = None"
  using assms
proof (induction ys arbitrary: es)
  case Nil
  then show ?case by simp
next
  case (Cons y ys)
  show ?case
  proof (cases "P y")
    case True
    with Cons.prems(3) have "\<exists>y \<in> set ys. \<not> P y"
      by auto
    then have "run pf (EndValue, InArray (es @ [y]) # st)
          (concat (map (\<lambda>y. TComma # tokens fmt y) ys) @ TRBrack # rest) = None"
      using Cons.prems(1,2) by (intro Cons.IH) simp_all
    with Cons.prems(1) [of y es] True show ?thesis
      by (simp add: run_comma_array del: run.simps)
  next
    case False
    with Cons.prems(2) [of y es] show ?thesis
      by (simp add: run_comma_array del: run.simps)
  qed
qed

lemma run_moreMembers_deep:
  assumes "\<And>kv obj rest. kv \<in> set kvs \<Longrightarrow> P kv \<Longrightarrow>
             run pf (BeginValue, InMember obj (fst kv) # st) (tokens fmt (snd kv) @ rest)
             = run pf (EndValue, InObject (AList.update (fst kv) (snd kv) obj) # st) rest"
    and "\<And>kv obj rest. kv \<in> set kvs \<Longrightarrow> \<not> P kv \<Longrightarrow>
             run pf (BeginValue, InMember obj (fst kv) # st) (tokens fmt (snd kv) @ rest) = None"
    and "\<And>kv. kv \<in> set kvs \<Longrightarrow> validString (fst kv)"
    and "\<exists>kv \<in> set kvs. \<not> P kv"
  shows "run pf (EndValue, InObject obj # st)
           (concat (map (\<lambda>kv. TComma # TString (appendString (fst kv)) # TColon
                                # tokens fmt (snd kv)) kvs) @ TRBrace # rest)
         = None"
  using assms
proof (induction kvs arbitrary: obj)
  case Nil
  then show ?case by simp
next
  case (Cons kv kvs)
  have k: "validString (fst kv)"
    using Cons.prems(3) by simp
  show ?case
  proof (cases "P kv")
    case True
    with Cons.prems(4) have "\<exists>kv \<in> set kvs. \<not> P kv"
      by auto
    then have "run pf (EndValue, InObject (AList.update (fst kv) (snd kv) obj) # st)
          (concat (map (\<lambda>kv. TComma # TString (appendString (fst kv)) # TColon
                               # tokens fmt (snd kv)) kvs) @ TRBrace # rest) = None"
      using Cons.prems(1,2,3) by (intro Cons.IH) simp_all
    with Cons.prems(1) [of kv obj] True k show ?thesis
      by (simp add: run_comma_object run_key del: run.simps)
  next
    case False
    with Cons.prems(2) [of kv obj] k show ?thesis
      by (simp add: run_comma_object run_key del: run.simps)
  qed
qed

lemma run_tokens_deep:
  assumes "wellFormed fmt pf v" and "10000 < int (length st) + nesting v"
    and "int (length st) \<le> 10000"
    and "mode = BeginValue \<or> mode = BeginValueOrEmpty"
  shows "run pf (mode, st) (tokens fmt v @ rest) = None"
  using assms
proof (induction v arbitrary: st mode rest)
  case JNull
  then show ?case by simp
next
  case (JBool b)
  then show ?case by simp
next
  case (JNumber x)
  then show ?case by simp
next
  case (JString s)
  then show ?case by simp
next
  case (JArray xs)
  show ?case
  proof (cases "int (length st) + 1 \<le> 10000")
    case False
    from tokens_JArray [of fmt xs] obtain toks where "tokens fmt (JArray xs) = TLBrack # toks"
      by blast
    with run_open_array_full [OF JArray.prems(4) False] show ?thesis
      by (simp del: run.simps tokens.simps)
  next
    case room: True
    define P where "P y = (int (length st) + 1 + nesting y \<le> 10000)" for y :: "'a json"
    from JArray.prems(2) room have "10000 - int (length st) - 1 < foldr max (map nesting xs) 0"
      by simp
    from nesting_attained [OF this] room obtain y0 where
      "y0 \<in> set xs" "10000 - int (length st) - 1 < nesting y0"
      by auto
    then have ex: "\<exists>y \<in> set xs. \<not> P y"
      unfolding P_def by (intro bexI [of _ y0]) simp_all
    have fit: "run pf (m, InArray es # st) (tokens fmt y @ rest')
        = run pf (EndValue, InArray (es @ [y]) # st) rest'"
      if "y \<in> set xs" "P y" "m = BeginValue \<or> m = BeginValueOrEmpty" for y m es rest'
    proof -
      from that(1) JArray.prems(1) have "wellFormed fmt pf y"
        by simp
      moreover from that(2) have "int (length (InArray es # st)) + nesting y \<le> 10000"
        by (simp add: P_def)
      ultimately show ?thesis
        using that(3) by (intro run_tokens endValue_InArray) simp_all
    qed
    have deep: "run pf (m, InArray es # st) (tokens fmt y @ rest') = None"
      if "y \<in> set xs" "\<not> P y" "m = BeginValue \<or> m = BeginValueOrEmpty" for y m es rest'
    proof -
      from that(1) JArray.prems(1) have "wellFormed fmt pf y"
        by simp
      moreover from that(2) have "10000 < int (length (InArray es # st)) + nesting y"
        by (simp add: P_def)
      moreover from room have "int (length (InArray es # st)) \<le> 10000"
        by simp
      ultimately show ?thesis
        using that(1,3) by (intro JArray.IH) simp_all
    qed
    from ex obtain x ys where xs: "xs = x # ys"
      by (cases xs) auto
    show ?thesis
    proof (cases "P x")
      case True
      with ex xs have "\<exists>y \<in> set ys. \<not> P y"
        by auto
      then have "run pf (EndValue, InArray [x] # st)
            (concat (map (\<lambda>y. TComma # tokens fmt y) ys) @ TRBrack # rest) = None"
        using fit deep xs by (intro run_moreElems_deep [where P = P]) simp_all
      with fit [of x BeginValueOrEmpty "[]"] True JArray.prems(4) room show ?thesis
        by (simp add: xs run_open_array del: run.simps)
    next
      case False
      with deep [of x BeginValueOrEmpty "[]"] JArray.prems(4) room show ?thesis
        by (simp add: xs run_open_array del: run.simps)
    qed
  qed
next
  case (JObject kvs)
  show ?case
  proof (cases "int (length st) + 1 \<le> 10000")
    case False
    from tokens_JObject [of fmt kvs] obtain toks where "tokens fmt (JObject kvs) = TLBrace # toks"
      by blast
    with run_open_object_full [OF JObject.prems(4) False] show ?thesis
      by (simp del: run.simps tokens.simps)
  next
    case room: True
    define P where "P kv = (int (length st) + 1 + nesting (snd kv) \<le> 10000)"
      for kv :: "string \<times> 'a json"
    from JObject.prems(2) room
    have "10000 - int (length st) - 1 < foldr max (map (\<lambda>kv. nesting (snd kv)) kvs) 0"
      by simp
    from nesting_attained [OF this] room obtain m0 where
      "m0 \<in> set kvs" "10000 - int (length st) - 1 < nesting (snd m0)"
      by auto
    then have ex: "\<exists>kv \<in> set kvs. \<not> P kv"
      unfolding P_def by (intro bexI [of _ m0]) simp_all
    have ks: "validString (fst m)" if "m \<in> set kvs" for m
      using that JObject.prems(1) by simp
    have fit: "run pf (BeginValue, InMember obj (fst m) # st) (tokens fmt (snd m) @ rest')
        = run pf (EndValue, InObject (AList.update (fst m) (snd m) obj) # st) rest'"
      if "m \<in> set kvs" "P m" for m obj rest'
    proof -
      from that(1) JObject.prems(1) have "wellFormed fmt pf (snd m)"
        by simp
      moreover from that(2)
      have "int (length (InMember obj (fst m) # st)) + nesting (snd m) \<le> 10000"
        by (simp add: P_def)
      ultimately show ?thesis
        by (intro run_tokens endValue_InMember) simp_all
    qed
    have deep: "run pf (BeginValue, InMember obj (fst m) # st) (tokens fmt (snd m) @ rest')
        = None"
      if "m \<in> set kvs" "\<not> P m" for m obj rest'
    proof -
      have "snd m \<in> Basic_BNFs.snds m"
        by (cases m) simp
      moreover from that(1) JObject.prems(1) have "wellFormed fmt pf (snd m)"
        by simp
      moreover from that(2)
      have "10000 < int (length (InMember obj (fst m) # st)) + nesting (snd m)"
        by (simp add: P_def)
      moreover from room have "int (length (InMember obj (fst m) # st)) \<le> 10000"
        by simp
      ultimately show ?thesis
        using that(1) by (intro JObject.IH [of m]) simp_all
    qed
    from ex obtain kv kvs' where kvs: "kvs = kv # kvs'"
      by (cases kvs) auto
    show ?thesis
    proof (cases "P kv")
      case True
      with ex kvs have "\<exists>m \<in> set kvs'. \<not> P m"
        by auto
      then have "run pf (EndValue, InObject (AList.update (fst kv) (snd kv) []) # st)
            (concat (map (\<lambda>kv. TComma # TString (appendString (fst kv)) # TColon
                                 # tokens fmt (snd kv)) kvs') @ TRBrace # rest) = None"
        using fit deep ks kvs by (intro run_moreMembers_deep [where P = P]) simp_all
      with fit [of kv "[]"] ks [of kv] True JObject.prems(4) room show ?thesis
        by (simp add: kvs run_open_object run_key del: run.simps)
    next
      case False
      with deep [of kv "[]"] ks [of kv] JObject.prems(4) room show ?thesis
        by (simp add: kvs run_open_object run_key del: run.simps)
    qed
  qed
qed

lemma json_Unmarshal_deep:
  assumes "wellFormed fmt pf (JObject h)" and "10000 < nesting (JObject h)"
  shows "json_Unmarshal pf (jsonText fmt (JObject h)) = None"
proof -
  have "lex LTop (jsonText fmt (JObject h) @ []) = Some (tokens fmt (JObject h) @ [])"
    by (rule lex_jsonText [OF assms(1)]) simp_all
  moreover have "run pf (BeginValue, []) (tokens fmt (JObject h) @ []) = None"
    using assms by (intro run_tokens_deep) simp_all
  ultimately show ?thesis
    by (simp add: json_Unmarshal_def)
qed

text \<open>The token and its segments.\<close>

lemma strings_Split_nonempty: "strings_Split s sep \<noteq> []"
  by (induction s) (auto split: list.splits)

lemma strings_Split_sep:
  "sep \<in> set s \<Longrightarrow> \<exists>x y ys. strings_Split s sep = x # y # ys"
proof (induction s)
  case Nil
  then show ?case by simp
next
  case (Cons c s)
  show ?case
  proof (cases "c = sep")
    case True
    with strings_Split_nonempty [of s sep] show ?thesis
      by (cases "strings_Split s sep") simp_all
  next
    case False
    with Cons obtain x y ys where "strings_Split s sep = x # y # ys"
      by auto
    with False show ?thesis
      by simp
  qed
qed

lemma ParseJWT_segments:
  assumes "CHR ''.'' \<in> set sig"
  shows "\<exists>n. ParseJWT parseFloat
           (base64_EncodeToString a @ ''.'' @ base64_EncodeToString b @ ''.'' @ sig) strictMode
         = Inl (InvalidFormat n)"
proof -
  from strings_Split_sep [OF assms] obtain x y ys where
    "strings_Split sig (CHR ''.'') = x # y # ys"
    by blast
  then have "strings_Split
      (base64_EncodeToString a @ ''.'' @ base64_EncodeToString b @ ''.'' @ sig) (CHR ''.'')
      = base64_EncodeToString a # base64_EncodeToString b # x # y # ys"
    by (simp add: strings_Split_append base64_no_dot)
  then show ?thesis
    by (simp add: ParseJWT_def)
qed

lemma ParseJWT_texts_cases:
  assumes "CHR ''.'' \<notin> set sig"
  shows "ParseJWT parseFloat
           (base64_EncodeToString headerJSON @ ''.'' @ base64_EncodeToString payloadJSON
            @ ''.'' @ sig) strictMode
         = (case json_Unmarshal parseFloat headerJSON of
              None \<Rightarrow> Inl InvalidJSON
            | Some header \<Rightarrow>
                (case json_Unmarshal parseFloat payloadJSON of
                   None \<Rightarrow> Inl InvalidJSON
                 | Some payload \<Rightarrow>
                     if strictMode \<and> map_of header ''alg'' = None then Inl MissingAlg
                     else Inr \<lparr>Header = header, Payload = payload, Signature = sig\<rparr>))"
proof -
  have "strings_Split
          (base64_EncodeToString headerJSON @ ''.'' @ base64_EncodeToString payloadJSON
           @ ''.'' @ sig) (CHR ''.'')
        = [base64_EncodeToString headerJSON, base64_EncodeToString payloadJSON, sig]"
    using assms by (intro strings_Split_token base64_no_dot)
  then show ?thesis
    by (simp add: ParseJWT_def base64_round_trip)
qed

lemma json_Unmarshal_jsonText_cases:
  assumes "wellFormed fmt pf (JObject h)"
  shows "json_Unmarshal pf (jsonText fmt (JObject h))
         = (if nesting (JObject h) \<le> 10000 then Some h else None)"
  using json_Unmarshal_jsonText [OF assms] json_Unmarshal_deep [OF assms] by simp

text \<open>
  Two values outside the well-formed ones, and what the decoder returns for their texts:
  a string that is not well-formed UTF-8 comes back with the replacement character, and
  of two members with the same key the last one is kept.
\<close>

lemma json_Unmarshal_ill_formed_utf8:
  "json_Unmarshal (\<lambda>s. None :: unit option)
      (jsonText (\<lambda>x. []) (JObject [(''k'', JString [CHR 0xFF])] :: unit json))
   = Some [(''k'', JString [CHR 0xEF, CHR 0xBF, CHR 0xBD])]"
  by code_simp

lemma json_Unmarshal_repeated_key:
  "json_Unmarshal (\<lambda>s. None :: unit option)
      (jsonText (\<lambda>x. []) (JObject [(''k'', JNull), (''k'', JBool True)] :: unit json))
   = Some [(''k'', JBool True)]"
  by code_simp

text \<open>
  Claim C6, as stated, fails: \<open>ParseJWT\<close> takes a \<open>strictMode\<close> flag, and with the flag
  set it rejects the token built from the empty header object, which has no \<open>alg\<close> key.
\<close>

theorem ParseJWT_round_trip_counterexample:
  "jsonText (\<lambda>x. []) (JObject [] :: unit json) = ''{}''
   \<and> ParseJWT (\<lambda>s. None :: unit option)
        (base64_EncodeToString (jsonText (\<lambda>x. []) (JObject [] :: unit json)) @ ''.''
         @ base64_EncodeToString (jsonText (\<lambda>x. []) (JObject [] :: unit json)) @ ''.''
         @ ''sig'')
        True
       = Inl MissingAlg"
  by code_simp

text \<open>
  Claim C6, amended. Let \<open>h\<close> and \<open>p\<close> be well-formed JSON objects: strings and keys in
  well-formed UTF-8, distinct keys in each object, numbers that \<open>parseFloat\<close> reads back
  from their text. Let \<open>json\<close> write the JSON text of a value as \<open>encoding/json\<close> does, the
  members in any order. Then \<open>ParseJWT\<close> of the token
  \<open>base64url(json(h)) . base64url(json(p)) . sig\<close> succeeds with header \<open>h\<close>, payload \<open>p\<close>
  and signature \<open>sig\<close> if and only if neither \<open>h\<close> nor \<open>p\<close> nests arrays and objects more
  than 10000 deep, which is the limit of the decoder, \<open>sig\<close> holds no dot, so that the
  token has three segments, and \<open>strictMode\<close> is off or \<open>h\<close> has the key \<open>alg\<close>.
\<close>

theorem ParseJWT_round_trip:
  assumes "wellFormed formatFloat parseFloat (JObject h)"
    and "wellFormed formatFloat parseFloat (JObject p)"
  shows "(ParseJWT parseFloat
            (base64_EncodeToString (jsonText formatFloat (JObject h)) @ ''.''
             @ base64_EncodeToString (jsonText formatFloat (JObject p)) @ ''.'' @ sig)
            strictMode
          = Inr \<lparr>Header = h, Payload = p, Signature = sig\<rparr>)
         = (nesting (JObject h) \<le> 10000 \<and> nesting (JObject p) \<le> 10000
            \<and> CHR ''.'' \<notin> set sig \<and> (strictMode \<longrightarrow> map_of h ''alg'' \<noteq> None))"
proof (cases "CHR ''.'' \<in> set sig")
  case True
  from ParseJWT_segments [OF this] show ?thesis
    using True by (metis Inl_Inr_False)
next
  case False
  show ?thesis
    unfolding ParseJWT_texts_cases [OF False] json_Unmarshal_jsonText_cases [OF assms(1)]
      json_Unmarshal_jsonText_cases [OF assms(2)]
    using False by auto
qed

theorem ParseJWT_round_trip_witness:
  "wellFormed (\<lambda>x::int. if x = 1516239022 then ''1516239022'' else ''0'')
      (\<lambda>s. if s = ''1516239022'' then Some 1516239022 else None)
      (JObject [(''alg'', JString ''HS256''), (''typ'', JString ''JWT'')])
   \<and> wellFormed (\<lambda>x::int. if x = 1516239022 then ''1516239022'' else ''0'')
      (\<lambda>s. if s = ''1516239022'' then Some 1516239022 else None)
      (JObject [(''sub'', JString ''1234567890''), (''name'', JString ''John Doe''),
                (''iat'', JNumber 1516239022)])
   \<and> nesting (JObject [(''alg'', JString ''HS256''), (''typ'', JString ''JWT'' :: int json)])
      \<le> 10000
   \<and> nesting (JObject [(''sub'', JString ''1234567890''), (''name'', JString ''John Doe''),
                        (''iat'', JNumber (1516239022 :: int))]) \<le> 10000
   \<and> CHR ''.'' \<notin> set ''SflKxwRJSMeKKF2QT4fwpMeJf36POk6yJV_adQssw5c''
   \<and> map_of [(''alg'', JString ''HS256''), (''typ'', JString ''JWT'' :: int json)] ''alg'' \<noteq> None
   \<and> ParseJWT (\<lambda>s. if s = ''1516239022'' then Some (1516239022 :: int) else None)
        (''eyJhbGciOiJIUzI1NiIsInR5cCI6IkpXVCJ9''
         @ ''.'' @ ''eyJzdWIiOiIxMjM0NTY3ODkwIiwibmFtZSI6IkpvaG4gRG9lIiwiaWF0IjoxNTE2MjM5MDIyfQ''
         @ ''.'' @ ''SflKxwRJSMeKKF2QT4fwpMeJf36POk6yJV_adQssw5c'') True
     = Inr \<lparr>Header = [(''alg'', JString ''HS256''), (''typ'', JString ''JWT'')],
            Payload = [(''sub'', JString ''1234567890''), (''name'', JString ''John Doe''),
                       (''iat'', JNumber 1516239022)],
            Signature = ''SflKxwRJSMeKKF2QT4fwpMeJf36POk6yJV_adQssw5c''\<rparr>"
proof -
  let ?fmt = "\<lambda>x::int. if x = 1516239022 then ''1516239022'' else ''0''"
  let ?pf = "\<lambda>s. if s = ''1516239022'' then Some (1516239022 :: int) else None"
  let ?h = "[(''alg'', JString ''HS256''), (''typ'', JString ''JWT'' :: int json)]"
  let ?p = "[(''sub'', JString ''1234567890''), (''name'', JString ''John Doe''),
             (''iat'', JNumber (1516239022 :: int))]"
  let ?sig = "''SflKxwRJSMeKKF2QT4fwpMeJf36POk6yJV_adQssw5c''"
  have wh: "wellFormed ?fmt ?pf (JObject ?h)"
    by code_simp
  have wp: "wellFormed ?fmt ?pf (JObject ?p)"
    by code_simp
  have nh: "nesting (JObject ?h) \<le> 10000"
    by code_simp
  have np: "nesting (JObject ?p) \<le> 10000"
    by code_simp
  have d: "CHR ''.'' \<notin> set ?sig"
    by code_simp
  have a: "map_of ?h ''alg'' \<noteq> None"
    by simp
  have eh: "base64_EncodeToString (jsonText ?fmt (JObject ?h))
      = ''eyJhbGciOiJIUzI1NiIsInR5cCI6IkpXVCJ9''"
    by code_simp
  have ep: "base64_EncodeToString (jsonText ?fmt (JObject ?p))
      = ''eyJzdWIiOiIxMjM0NTY3ODkwIiwibmFtZSI6IkpvaG4gRG9lIiwiaWF0IjoxNTE2MjM5MDIyfQ''"
    by code_simp
  have "ParseJWT ?pf
      (''eyJhbGciOiJIUzI1NiIsInR5cCI6IkpXVCJ9''
       @ ''.'' @ ''eyJzdWIiOiIxMjM0NTY3ODkwIiwibmFtZSI6IkpvaG4gRG9lIiwiaWF0IjoxNTE2MjM5MDIyfQ''
       @ ''.'' @ ?sig) True
     = Inr \<lparr>Header = ?h, Payload = ?p, Signature = ?sig\<rparr>"
    using ParseJWT_round_trip [OF wh wp, of ?sig True] nh np d a unfolding eh ep by blast
  with wh wp nh np d a show ?thesis
    by simp
qed

text \<open>
  Claim C10. Take a token of three segments whose first two segments decode from
  base64url and parse as JSON, the header object having no key \<open>alg\<close>. With
  \<open>strictMode\<close> set, \<open>ParseJWT\<close> rejects it with the missing-\<open>alg\<close> error and returns
  no JWT; with \<open>strictMode\<close> off it returns the JWT.
\<close>

theorem ParseJWT_strictMode:
  assumes "strings_Split token (CHR ''.'') = [seg0, seg1, seg2]"
    and "base64_DecodeString seg0 = Some headerBytes"
    and "base64_DecodeString seg1 = Some payloadBytes"
    and "json_Unmarshal parseFloat headerBytes = Some header"
    and "json_Unmarshal parseFloat payloadBytes = Some payload"
    and "map_of header ''alg'' = None"
  shows "ParseJWT parseFloat token True = Inl MissingAlg
         \<and> ParseJWT parseFloat token False
             = Inr \<lparr>Header = header, Payload = payload, Signature = seg2\<rparr>"
  using assms by (simp add: ParseJWT_def)

theorem ParseJWT_strictMode_witness:
  "strings_Split ''eyJ0eXAiOiJKV1QifQ.eyJzdWIiOiIxMjM0NTY3ODkwIn0.sig'' (CHR ''.'')
     = [''eyJ0eXAiOiJKV1QifQ'', ''eyJzdWIiOiIxMjM0NTY3ODkwIn0'', ''sig'']
   \<and> base64_DecodeString ''eyJ0eXAiOiJKV1QifQ''
     = Some (''{'' @ [CHR 0x22] @ ''typ'' @ [CHR 0x22] @ '':'' @ [CHR 0x22] @ ''JWT''
             @ [CHR 0x22] @ ''}'')
   \<and> base64_DecodeString ''eyJzdWIiOiIxMjM0NTY3ODkwIn0''
     = Some (''{'' @ [CHR 0x22] @ ''sub'' @ [CHR 0x22] @ '':'' @ [CHR 0x22] @ ''1234567890''
             @ [CHR 0x22] @ ''}'')
   \<and> json_Unmarshal (\<lambda>s. None :: unit option)
        (''{'' @ [CHR 0x22] @ ''typ'' @ [CHR 0x22] @ '':'' @ [CHR 0x22] @ ''JWT''
         @ [CHR 0x22] @ ''}'')
     = Some [(''typ'', JString ''JWT'')]
   \<and> json_Unmarshal (\<lambda>s. None :: unit option)
        (''{'' @ [CHR 0x22] @ ''sub'' @ [CHR 0x22] @ '':'' @ [CHR 0x22] @ ''1234567890''
         @ [CHR 0x22] @ ''}'')
     = Some [(''sub'', JString ''1234567890'')]
   \<and> map_of [(''typ'', JString ''JWT'' :: unit json)] ''alg'' = None
   \<and> ParseJWT (\<lambda>s. None :: unit option)
        ''eyJ0eXAiOiJKV1QifQ.eyJzdWIiOiIxMjM0NTY3ODkwIn0.sig'' True = Inl MissingAlg
   \<and> ParseJWT (\<lambda>s. None :: unit option)
        ''eyJ0eXAiOiJKV1QifQ.eyJzdWIiOiIxMjM0NTY3ODkwIn0.sig'' False
     = Inr \<lparr>Header = [(''typ'', JString ''JWT'')],
            Payload = [(''sub'', JString ''1234567890'')], Signature = ''sig''\<rparr>"
proof -
  let ?hj = "''{'' @ [CHR 0x22] @ ''typ'' @ [CHR 0x22] @ '':'' @ [CHR 0x22] @ ''JWT''
      @ [CHR 0x22] @ ''}''"
  let ?pj = "''{'' @ [CHR 0x22] @ ''sub'' @ [CHR 0x22] @ '':'' @ [CHR 0x22] @ ''1234567890''
      @ [CHR 0x22] @ ''}''"
  have s: "strings_Split ''eyJ0eXAiOiJKV1QifQ.eyJzdWIiOiIxMjM0NTY3ODkwIn0.sig'' (CHR ''.'')
      = [''eyJ0eXAiOiJKV1QifQ'', ''eyJzdWIiOiIxMjM0NTY3ODkwIn0'', ''sig'']"
    by code_simp
  have bh: "base64_DecodeString ''eyJ0eXAiOiJKV1QifQ'' = Some ?hj"
    by code_simp
  have bp: "base64_DecodeString ''eyJzdWIiOiIxMjM0NTY3ODkwIn0'' = Some ?pj"
    by code_simp
  have h: "json_Unmarshal (\<lambda>s. None :: unit option) ?hj = Some [(''typ'', JString ''JWT'')]"
    by code_simp
  have p: "json_Unmarshal (\<lambda>s. None :: unit option) ?pj = Some [(''sub'', JString ''1234567890'')]"
    by code_simp
  have a: "map_of [(''typ'', JString ''JWT'' :: unit json)] ''alg'' = None"
    by simp
  from s bh bp h p a ParseJWT_strictMode [OF s bh bp h p a] show ?thesis
    by (intro conjI) simp_all
qed

subsection \<open>The request handler\<close>

text \<open>
  Claim C3. With \<open>continueOnError\<close> off, when the source header is absent or empty, or
  the token extracted from it fails to decode, the handler does not call the next
  handler, leaves the request's headers as they were, and writes a response with status
  401 whose body object has the field \<open>error\<close> equal to \<open>unauthorized\<close> and a non-empty
  \<open>message\<close> field.
\<close>

theorem ServeHTTP_fail_closed:
  assumes "\<not> ContinueOnError config"
    and "Header_Get h (SourceHeader config) = []
         \<or> (\<exists>err. ParseJWT (strconv_ParseFloat lib)
                     (ExtractToken (Header_Get h (SourceHeader config)) (TokenPrefix config))
                     strictMode = Inl err)"
  shows "\<exists>message. message \<noteq> []
           \<and> ServeHTTP lib strictMode config h
               = \<lparr>reqHeader = h, forwarded = False,
                  written = Some (returnError ''unauthorized'' message)\<rparr>
           \<and> statusCode (returnError ''unauthorized'' message) = 401
           \<and> map_of (respBody (returnError ''unauthorized'' message)) ''error''
               = Some ''unauthorized''
           \<and> map_of (respBody (returnError ''unauthorized'' message)) ''message''
               = Some message"
proof (cases "Header_Get h (SourceHeader config) = []")
  case True
  with assms(1) have "ServeHTTP lib strictMode config h
      = \<lparr>reqHeader = h, forwarded = False,
         written = Some (returnError ''unauthorized'' ''missing JWT token'')\<rparr>"
    by (simp add: ServeHTTP_def)
  then show ?thesis
    by (intro exI [of _ "''missing JWT token''"]) (simp add: returnError_def)
next
  case False
  with assms(2) obtain err where "ParseJWT (strconv_ParseFloat lib)
      (ExtractToken (Header_Get h (SourceHeader config)) (TokenPrefix config)) strictMode
      = Inl err"
    by blast
  with False assms(1) have "ServeHTTP lib strictMode config h
      = \<lparr>reqHeader = h, forwarded = False,
         written = Some (returnError ''unauthorized'' ''invalid JWT token'')\<rparr>"
    by (simp add: ServeHTTP_def)
  then show ?thesis
    by (intro exI [of _ "''invalid JWT token''"]) (simp add: returnError_def)
qed

theorem ServeHTTP_fail_closed_witness:
  "\<not> ContinueOnError (CreateConfig\<lparr>ContinueOnError := False\<rparr>)
   \<and> ParseJWT (\<lambda>s. None :: unit option)
        (ExtractToken
           (Header_Get [''Authorization'' \<mapsto> [''Bearer e30.e30'']]
              (SourceHeader (CreateConfig\<lparr>ContinueOnError := False\<rparr>)))
           (TokenPrefix (CreateConfig\<lparr>ContinueOnError := False\<rparr>)))
        False
       = Inl (InvalidFormat 2)
   \<and> forwarded
        (ServeHTTP
           \<lparr>unicode_ToLower = (\<lambda>r. r), strconv_ParseFloat = (\<lambda>s. None :: unit option),
            strconv_FormatFloat = (\<lambda>x. []), json_Marshal = (\<lambda>v. None)\<rparr>
           False (CreateConfig\<lparr>ContinueOnError := False\<rparr>)
           [''Authorization'' \<mapsto> [''Bearer e30.e30'']])
       = False
   \<and> reqHeader
        (ServeHTTP
           \<lparr>unicode_ToLower = (\<lambda>r. r), strconv_ParseFloat = (\<lambda>s. None :: unit option),
            strconv_FormatFloat = (\<lambda>x. []), json_Marshal = (\<lambda>v. None)\<rparr>
           False (CreateConfig\<lparr>ContinueOnError := False\<rparr>)
           [''Authorization'' \<mapsto> [''Bearer e30.e30'']])
       = [''Authorization'' \<mapsto> [''Bearer e30.e30'']]
   \<and> map_option statusCode
        (written
           (ServeHTTP
              \<lparr>unicode_ToLower = (\<lambda>r. r), strconv_ParseFloat = (\<lambda>s. None :: unit option),
               strconv_FormatFloat = (\<lambda>x. []), json_Marshal = (\<lambda>v. None)\<rparr>
              False (CreateConfig\<lparr>ContinueOnError := False\<rparr>)
              [''Authorization'' \<mapsto> [''Bearer e30.e30'']]))
       = Some 401
   \<and> map_option (\<lambda>r. map_of (respBody r) ''error'')
        (written
           (ServeHTTP
              \<lparr>unicode_ToLower = (\<lambda>r. r), strconv_ParseFloat = (\<lambda>s. None :: unit option),
               strconv_FormatFloat = (\<lambda>x. []), json_Marshal = (\<lambda>v. None)\<rparr>
              False (CreateConfig\<lparr>ContinueOnError := False\<rparr>)
              [''Authorization'' \<mapsto> [''Bearer e30.e30'']]))
       = Some (Some ''unauthorized'')"
proof -
  let ?lib = "\<lparr>unicode_ToLower = (\<lambda>r. r), strconv_ParseFloat = (\<lambda>s. None :: unit option),
      strconv_FormatFloat = (\<lambda>x. []), json_Marshal = (\<lambda>v. None)\<rparr>"
  let ?config = "CreateConfig\<lparr>ContinueOnError := False\<rparr>"
  let ?h = "[''Authorization'' \<mapsto> [''Bearer e30.e30'']]"
  have c: "\<not> ContinueOnError ?config"
    by simp
  have k: "CanonicalMIMEHeaderKey ''Authorization'' = ''Authorization''"
    by code_simp
  have g: "Header_Get ?h (SourceHeader ?config) = ''Bearer e30.e30''"
    by (simp add: CreateConfig_def Header_Get_def k)
  have t: "ExtractToken ''Bearer e30.e30'' (TokenPrefix ?config) = ''e30.e30''"
    by code_simp
  have p: "ParseJWT (\<lambda>s. None :: unit option) ''e30.e30'' False = Inl (InvalidFormat 2)"
    by code_simp
  have e: "ParseJWT (strconv_ParseFloat ?lib)
      (ExtractToken (Header_Get ?h (SourceHeader ?config)) (TokenPrefix ?config)) False
      = Inl (InvalidFormat 2)"
    unfolding g t using p by simp
  then have d: "Header_Get ?h (SourceHeader ?config) = []
      \<or> (\<exists>err. ParseJWT (strconv_ParseFloat ?lib)
            (ExtractToken (Header_Get ?h (SourceHeader ?config)) (TokenPrefix ?config)) False
            = Inl err)"
    by blast
  from ServeHTTP_fail_closed [OF c d] obtain message where
    "ServeHTTP ?lib False ?config ?h
      = \<lparr>reqHeader = ?h, forwarded = False,
         written = Some (returnError ''unauthorized'' message)\<rparr>"
    and "statusCode (returnError ''unauthorized'' message) = 401"
    and "map_of (respBody (returnError ''unauthorized'' message)) ''error''
      = Some ''unauthorized''"
    by blast
  with c e show ?thesis
    by simp
qed

end
